theory Spec2Isabelle
  imports Complex_Main "HOL-Library.Word" "HOL-Library.Sublist" "HOL-Library.Multiset"
begin

section \<open>Strings\<close>

text \<open>
  A JavaScript string is a sequence of UTF-16 code units. \<open>ch\<close> and \<open>js\<close> write
  the code units of ASCII characters and literals.
\<close>

type_synonym jschar = "16 word"
type_synonym jsstring = "jschar list"

definition ch :: "char \<Rightarrow> jschar" where
  [simp]: "ch c = of_char c"

definition js :: "string \<Rightarrow> jsstring" where
  [simp]: "js s = map ch s"

text \<open>
  \<^verbatim>\<open>String.prototype.trim\<close> strips WhiteSpace and LineTerminator code points from
  both ends: TAB, LF, VT, FF, CR, SP, NBSP, U+1680, U+2000 to U+200A, U+2028, U+2029,
  U+202F, U+205F, U+3000 and U+FEFF.
\<close>

definition is_white_space :: "jschar \<Rightarrow> bool" where
  "is_white_space c \<longleftrightarrow>
     c \<in> set [0x0009, 0x000A, 0x000B, 0x000C, 0x000D, 0x0020, 0x00A0, 0x1680,
              0x2028, 0x2029, 0x202F, 0x205F, 0x3000, 0xFEFF]
     \<or> (0x2000 \<le> c \<and> c \<le> 0x200A)"

definition trim :: "jsstring \<Rightarrow> jsstring" where
  "trim s = rev (dropWhile is_white_space (rev (dropWhile is_white_space s)))"

text \<open>\<^verbatim>\<open>s.slice(a, b)\<close> and \<^verbatim>\<open>s.slice(-k)\<close> for \<open>0 \<le> a \<le> b\<close> and \<open>0 < k\<close>.\<close>

definition slice :: "nat \<Rightarrow> nat \<Rightarrow> 'a list \<Rightarrow> 'a list" where
  "slice a b s = take (b - a) (drop a s)"

definition slice_last :: "nat \<Rightarrow> 'a list \<Rightarrow> 'a list" where
  "slice_last k s = drop (length s - k) s"

section \<open>Tasks\<close>

text \<open>
  The declared type of \<^verbatim>\<open>tasks\<close>:
  \<^verbatim>\<open>Array<{id:string,text:string,createdAt:number,completed:boolean,completedAt:number|null}>\<close>.
  Time stamps are the integer milliseconds of \<^verbatim>\<open>Date.now()\<close>; \<^verbatim>\<open>null\<close> is \<open>None\<close>.
\<close>

record task =
  task_id :: jsstring
  task_text :: jsstring
  createdAt :: int
  completed :: bool
  completedAt :: "int option"

text \<open>
  The patch objects that \<^verbatim>\<open>updateTask\<close> receives: \<^verbatim>\<open>{ text }\<close> from \<^verbatim>\<open>commitEdit\<close>
  and \<^verbatim>\<open>{ completed, completedAt }\<close> from the checkbox handler. A key that is absent
  from the object is \<open>None\<close>.
\<close>

record patch =
  patch_text :: "jsstring option"
  patch_completed :: "bool option"
  patch_completedAt :: "int option option"

definition no_patch :: patch where
  "no_patch = \<lparr>patch_text = None, patch_completed = None, patch_completedAt = None\<rparr>"

text \<open>The object spread \<^verbatim>\<open>{ ...t, ...p }\<close>: the keys of \<open>p\<close> override those of \<open>t\<close>.\<close>

definition spread :: "task \<Rightarrow> patch \<Rightarrow> task" where
  "spread t p =
     t\<lparr>task_text := (case patch_text p of None \<Rightarrow> task_text t | Some x \<Rightarrow> x),
       completed := (case patch_completed p of None \<Rightarrow> completed t | Some b \<Rightarrow> b),
       completedAt := (case patch_completedAt p of None \<Rightarrow> completedAt t | Some a \<Rightarrow> a)\<rparr>"

text \<open>\<^verbatim>\<open>Array.prototype.findIndex\<close>: the first index whose element satisfies \<open>P\<close>, or \<open>-1\<close>.\<close>

fun findIndex :: "('a \<Rightarrow> bool) \<Rightarrow> 'a list \<Rightarrow> int" where
  "findIndex P [] = - 1"
| "findIndex P (x # xs) =
     (if P x then 0 else (let i = findIndex P xs in if i = - 1 then - 1 else i + 1))"

section \<open>Identifiers\<close>

text \<open>
  \<^verbatim>\<open>Number.prototype.toString(36)\<close> on an integer: digits \<open>0-9a-z\<close>, most significant
  first, with a leading minus sign for a negative number.
\<close>

definition digit36 :: "nat \<Rightarrow> jschar" where
  "digit36 d = (if d < 10 then of_nat (48 + d) else of_nat (97 + (d - 10)))"

fun digits36 :: "nat \<Rightarrow> jsstring" where
  "digits36 n = (if n < 36 then [digit36 n] else digits36 (n div 36) @ [digit36 (n mod 36)])"

definition toString36 :: "int \<Rightarrow> jsstring" where
  "toString36 n = (if n < 0 then ch CHR ''-'' # digits36 (nat (- n)) else digits36 (nat n))"

text \<open>
  \<^verbatim>\<open>uid()\<close> is \<^verbatim>\<open>Math.random().toString(36).slice(2, 10) + Date.now().toString(36).slice(-4)\<close>.
  The two readings of the environment that it makes are its arguments: \<open>rnd\<close> is the
  string \<^verbatim>\<open>Math.random().toString(36)\<close>, \<open>uid_now\<close> is its own reading of
  \<^verbatim>\<open>Date.now()\<close>.
\<close>

definition uid :: "jsstring \<Rightarrow> int \<Rightarrow> jsstring" where
  "uid rnd uid_now = slice 2 10 rnd @ slice_last 4 (toString36 uid_now)"

section \<open>JSON\<close>

text \<open>
  What a call can throw. \<^verbatim>\<open>SyntaxError\<close> is thrown by \<^verbatim>\<open>JSON.parse\<close> and caught in
  \<^verbatim>\<open>loadTasks\<close>. \<^verbatim>\<open>ValidationError\<close> and \<^verbatim>\<open>NotFoundError\<close> are the errors that the
  specification names; the program has no \<^verbatim>\<open>throw\<close> statement.
\<close>

datatype error = SyntaxError | ValidationError | NotFoundError

text \<open>
  The values that \<^verbatim>\<open>JSON.parse\<close> returns. A number is kept as the exact rational that its
  literal denotes (the rounding to an IEEE double is not modelled). An object is the list
  of its properties in creation order; a key that occurs again replaces the value at the
  position of its first occurrence.

  The parser follows the JSON grammar: white space is space, tab, line feed and carriage
  return; a string has no raw control character and the escapes
  \<^verbatim>\<open>\" \\ \/ \b \f \n \r \t \uXXXX\<close>; a number is an optional minus, an integer part
  without a leading zero, an optional fraction and an optional exponent. Each parser
  returns the value and the rest of the text, or \<open>None\<close> where \<^verbatim>\<open>JSON.parse\<close> throws.
\<close>

datatype json = JNull | JBool bool | JNum rat | JStr jsstring | JArr "json list"
  | JObj "(jsstring \<times> json) list"

definition is_json_ws :: "jschar \<Rightarrow> bool" where
  "is_json_ws c \<longleftrightarrow> c = 0x20 \<or> c = 0x09 \<or> c = 0x0A \<or> c = 0x0D"

definition skip_ws :: "jsstring \<Rightarrow> jsstring" where
  "skip_ws cs = dropWhile is_json_ws cs"

definition is_digit :: "jschar \<Rightarrow> bool" where
  "is_digit c \<longleftrightarrow> 0x30 \<le> c \<and> c \<le> 0x39"

definition hex_value :: "jschar \<Rightarrow> nat option" where
  "hex_value c =
     (if 0x30 \<le> c \<and> c \<le> 0x39 then Some (unat c - 0x30)
      else if 0x61 \<le> c \<and> c \<le> 0x66 then Some (unat c - 0x61 + 10)
      else if 0x41 \<le> c \<and> c \<le> 0x46 then Some (unat c - 0x41 + 10)
      else None)"

definition unhex4 :: "jschar \<Rightarrow> jschar \<Rightarrow> jschar \<Rightarrow> jschar \<Rightarrow> jschar option" where
  "unhex4 a b c d =
     (case (hex_value a, hex_value b, hex_value c, hex_value d) of
        (Some w, Some x, Some y, Some z) \<Rightarrow> Some (of_nat (((w * 16 + x) * 16 + y) * 16 + z))
      | _ \<Rightarrow> None)"

definition unescape :: "jschar \<Rightarrow> jschar option" where
  "unescape e =
     (if e = 0x22 then Some 0x22
      else if e = 0x5C then Some 0x5C
      else if e = ch CHR ''/'' then Some (ch CHR ''/'')
      else if e = ch CHR ''b'' then Some 0x08
      else if e = ch CHR ''f'' then Some 0x0C
      else if e = ch CHR ''n'' then Some 0x0A
      else if e = ch CHR ''r'' then Some 0x0D
      else if e = ch CHR ''t'' then Some 0x09
      else None)"

fun parse_string_chars :: "jsstring \<Rightarrow> (jsstring \<times> jsstring) option" where
  "parse_string_chars [] = None"
| "parse_string_chars (c # cs) =
     (if c = 0x22 then Some ([], cs)
      else if c = 0x5C then
        (case cs of
           [] \<Rightarrow> None
         | e # es \<Rightarrow>
             if e = ch CHR ''u'' then
               (case es of
                  h1 # h2 # h3 # h4 # r \<Rightarrow>
                    (case unhex4 h1 h2 h3 h4 of
                       None \<Rightarrow> None
                     | Some u \<Rightarrow> map_option (apfst ((#) u)) (parse_string_chars r))
                | _ \<Rightarrow> None)
             else
               (case unescape e of
                  None \<Rightarrow> None
                | Some u \<Rightarrow> map_option (apfst ((#) u)) (parse_string_chars es)))
      else if c < 0x20 then None
      else map_option (apfst ((#) c)) (parse_string_chars cs))"

definition nat_of_digits :: "jsstring \<Rightarrow> nat" where
  "nat_of_digits ds = foldl (\<lambda>a c. 10 * a + (unat c - 0x30)) 0 ds"

definition parse_frac :: "jsstring \<Rightarrow> (jsstring \<times> jsstring) option" where
  "parse_frac cs =
     (case cs of
        [] \<Rightarrow> Some ([], cs)
      | c # r \<Rightarrow>
          if c = ch CHR ''.'' then
            (if takeWhile is_digit r = [] then None
             else Some (takeWhile is_digit r, dropWhile is_digit r))
          else Some ([], cs))"

definition parse_exp :: "jsstring \<Rightarrow> (int \<times> jsstring) option" where
  "parse_exp cs =
     (case cs of
        [] \<Rightarrow> Some (0, cs)
      | c # r \<Rightarrow>
          if c = ch CHR ''e'' \<or> c = ch CHR ''E'' then
            (let (neg, r') =
                   (case r of
                      [] \<Rightarrow> (False, r)
                    | s # t \<Rightarrow>
                        if s = ch CHR ''-'' then (True, t)
                        else if s = ch CHR ''+'' then (False, t)
                        else (False, r))
             in if takeWhile is_digit r' = [] then None
                else Some ((if neg then - 1 else 1) * int (nat_of_digits (takeWhile is_digit r')),
                           dropWhile is_digit r'))
          else Some (0, cs))"

definition parse_number :: "jsstring \<Rightarrow> (rat \<times> jsstring) option" where
  "parse_number cs =
     (let (neg, cs1) =
            (case cs of
               [] \<Rightarrow> (False, cs)
             | c # r \<Rightarrow> if c = ch CHR ''-'' then (True, r) else (False, cs));
          ds = takeWhile is_digit cs1
      in if ds = [] \<or> (1 < length ds \<and> hd ds = ch CHR ''0'') then None
         else
           (case parse_frac (dropWhile is_digit cs1) of
              None \<Rightarrow> None
            | Some (fs, cs3) \<Rightarrow>
                (case parse_exp cs3 of
                   None \<Rightarrow> None
                 | Some (e, cs4) \<Rightarrow>
                     Some ((if neg then - 1 else 1)
                           * (of_nat (nat_of_digits ds) + of_nat (nat_of_digits fs) / 10 ^ length fs)
                           * (if 0 \<le> e then 10 ^ nat e else 1 / 10 ^ nat (- e)),
                           cs4))))"

fun set_property :: "jsstring \<Rightarrow> json \<Rightarrow> (jsstring \<times> json) list \<Rightarrow> (jsstring \<times> json) list" where
  "set_property k v [] = [(k, v)]"
| "set_property k v ((k', v') # m) =
     (if k' = k then (k, v) # m else (k', v') # set_property k v m)"

definition object_of :: "(jsstring \<times> json) list \<Rightarrow> (jsstring \<times> json) list" where
  "object_of ms = foldl (\<lambda>m (k, v). set_property k v m) [] ms"

definition parse_literal :: "jsstring \<Rightarrow> (json \<times> jsstring) option" where
  "parse_literal cs =
     (if take 4 cs = js ''true'' then Some (JBool True, drop 4 cs)
      else if take 5 cs = js ''false'' then Some (JBool False, drop 5 cs)
      else if take 4 cs = js ''null'' then Some (JNull, drop 4 cs)
      else None)"

text \<open>
  The parsers of white space and strings return less input than they get, which is what
  the termination of the parser of values rests on. The test \<open>length r \<le> length cs\<close>
  after each inner call of \<open>parse_value\<close> makes this visible in the definition; it
  always holds (\<open>parsers_consume\<close> below).
\<close>

lemma length_skip_ws: "length (skip_ws cs) \<le> length cs"
  by (simp add: skip_ws_def length_dropWhile_le)

lemma skip_ws_Cons_length: "skip_ws cs = c # r \<Longrightarrow> length r < length cs"
  using length_skip_ws [of cs] by simp

lemma parse_string_chars_length:
  "parse_string_chars cs = Some (s, r) \<Longrightarrow> length r < length cs"
  by (induction cs arbitrary: s r rule: parse_string_chars.induct)
     (fastforce split: if_splits list.splits option.splits)+

function parse_value :: "jsstring \<Rightarrow> (json \<times> jsstring) option"
  and parse_elements :: "jsstring \<Rightarrow> (json list \<times> jsstring) option"
  and parse_members :: "jsstring \<Rightarrow> ((jsstring \<times> json) list \<times> jsstring) option"
where
  "parse_value cs =
     (case skip_ws cs of
        [] \<Rightarrow> None
      | c # r \<Rightarrow>
          if c = ch CHR ''['' then
            (case skip_ws r of
               [] \<Rightarrow> None
             | c' # r' \<Rightarrow>
                 if c' = ch CHR '']'' then Some (JArr [], r')
                 else map_option (apfst JArr) (parse_elements (c' # r')))
          else if c = ch CHR ''{'' then
            (case skip_ws r of
               [] \<Rightarrow> None
             | c' # r' \<Rightarrow>
                 if c' = ch CHR ''}'' then Some (JObj [], r')
                 else map_option (apfst (JObj \<circ> object_of)) (parse_members (c' # r')))
          else if c = 0x22 then map_option (apfst JStr) (parse_string_chars r)
          else if c = ch CHR ''-'' \<or> is_digit c then map_option (apfst JNum) (parse_number (c # r))
          else parse_literal (c # r))"
| "parse_elements cs =
     (case parse_value cs of
        None \<Rightarrow> None
      | Some (v, r) \<Rightarrow>
          if length r \<le> length cs then
            (case skip_ws r of
               [] \<Rightarrow> None
             | c # r' \<Rightarrow>
                 if c = ch CHR '','' then map_option (apfst ((#) v)) (parse_elements r')
                 else if c = ch CHR '']'' then Some ([v], r')
                 else None)
          else None)"
| "parse_members cs =
     (case skip_ws cs of
        [] \<Rightarrow> None
      | c # r \<Rightarrow>
          if c = 0x22 then
            (case parse_string_chars r of
               None \<Rightarrow> None
             | Some (k, r1) \<Rightarrow>
                 (case skip_ws r1 of
                    [] \<Rightarrow> None
                  | c1 # r2 \<Rightarrow>
                      if c1 = ch CHR '':'' then
                        (case parse_value r2 of
                           None \<Rightarrow> None
                         | Some (v, r3) \<Rightarrow>
                             if length r3 \<le> length r2 then
                               (case skip_ws r3 of
                                  [] \<Rightarrow> None
                                | c3 # r4 \<Rightarrow>
                                    if c3 = ch CHR '','' then
                                      map_option (apfst ((#) (k, v))) (parse_members r4)
                                    else if c3 = ch CHR ''}'' then Some ([(k, v)], r4)
                                    else None)
                             else None)
                      else None))
          else None)"
  by pat_completeness auto

termination
  apply (relation "measure (\<lambda>x. case x of Inl cs \<Rightarrow> 2 * length cs
                                | Inr (Inl cs) \<Rightarrow> 2 * length cs + 1
                                | Inr (Inr cs) \<Rightarrow> 2 * length cs + 1)")
  apply simp
  subgoal for cs c r c' r' using skip_ws_Cons_length [of cs c r] skip_ws_Cons_length [of r c' r'] by simp
  subgoal for cs c r c' r' using skip_ws_Cons_length [of cs c r] skip_ws_Cons_length [of r c' r'] by simp
  subgoal by simp
  subgoal for cs x v r c r' using skip_ws_Cons_length [of r c r'] by simp
  subgoal for cs c r x k r1 c1 r2
    using skip_ws_Cons_length [of cs c r] parse_string_chars_length [of r k r1]
      skip_ws_Cons_length [of r1 c1 r2] by simp
  subgoal for cs c r x k r1 c1 r2 y v r3 c3 r4
    using skip_ws_Cons_length [of cs c r] parse_string_chars_length [of r k r1]
      skip_ws_Cons_length [of r1 c1 r2] skip_ws_Cons_length [of r3 c3 r4] by simp
  done

subsection \<open>Serialisation of the task array\<close>

text \<open>
  \<^verbatim>\<open>JSON.stringify(tasks)\<close> at the declared type of \<^verbatim>\<open>tasks\<close>. An integer prints as its
  decimal digits. QuoteJSONString escapes the quotation mark, the backslash, the control
  characters and lone surrogates; a surrogate pair is copied.
\<close>

definition digit10 :: "nat \<Rightarrow> jschar" where
  "digit10 d = of_nat (48 + d)"

fun digits10 :: "nat \<Rightarrow> jsstring" where
  "digits10 n = (if n < 10 then [digit10 n] else digits10 (n div 10) @ [digit10 (n mod 10)])"

definition Number_toString :: "int \<Rightarrow> jsstring" where
  "Number_toString n =
     (if n < 0 then ch CHR ''-'' # digits10 (nat (- n)) else digits10 (nat n))"

definition hex_digit :: "nat \<Rightarrow> jschar" where
  "hex_digit d = (if d < 10 then of_nat (48 + d) else of_nat (97 + (d - 10)))"

definition unicode_escape :: "jschar \<Rightarrow> jsstring" where
  "unicode_escape c =
     [0x5C, ch CHR ''u'',
      hex_digit (unat c div 4096), hex_digit (unat c div 256 mod 16),
      hex_digit (unat c div 16 mod 16), hex_digit (unat c mod 16)]"

definition is_lead_surrogate :: "jschar \<Rightarrow> bool" where
  "is_lead_surrogate c \<longleftrightarrow> 0xD800 \<le> c \<and> c \<le> 0xDBFF"

definition is_trail_surrogate :: "jschar \<Rightarrow> bool" where
  "is_trail_surrogate c \<longleftrightarrow> 0xDC00 \<le> c \<and> c \<le> 0xDFFF"

fun quote_chars :: "jsstring \<Rightarrow> jsstring" where
  "quote_chars [] = []"
| "quote_chars (c # cs) =
     (if c = 0x08 then [0x5C, ch CHR ''b''] @ quote_chars cs
      else if c = 0x09 then [0x5C, ch CHR ''t''] @ quote_chars cs
      else if c = 0x0A then [0x5C, ch CHR ''n''] @ quote_chars cs
      else if c = 0x0C then [0x5C, ch CHR ''f''] @ quote_chars cs
      else if c = 0x0D then [0x5C, ch CHR ''r''] @ quote_chars cs
      else if c = 0x22 then [0x5C, 0x22] @ quote_chars cs
      else if c = 0x5C then [0x5C, 0x5C] @ quote_chars cs
      else if c < 0x20 then unicode_escape c @ quote_chars cs
      else if is_lead_surrogate c then
        (case cs of
           [] \<Rightarrow> unicode_escape c
         | d # ds \<Rightarrow>
             if is_trail_surrogate d then c # d # quote_chars ds
             else unicode_escape c @ quote_chars cs)
      else if is_trail_surrogate c then unicode_escape c @ quote_chars cs
      else c # quote_chars cs)"

definition quote :: "jsstring \<Rightarrow> jsstring" where
  "quote s = [0x22] @ quote_chars s @ [0x22]"

definition stringify_task :: "task \<Rightarrow> jsstring" where
  "stringify_task t =
     js ''{'' @ quote (js ''id'') @ js '':'' @ quote (task_id t)
     @ js '','' @ quote (js ''text'') @ js '':'' @ quote (task_text t)
     @ js '','' @ quote (js ''createdAt'') @ js '':'' @ Number_toString (createdAt t)
     @ js '','' @ quote (js ''completed'') @ js '':''
       @ (if completed t then js ''true'' else js ''false'')
     @ js '','' @ quote (js ''completedAt'') @ js '':''
       @ (case completedAt t of None \<Rightarrow> js ''null'' | Some a \<Rightarrow> Number_toString a)
     @ js ''}''"

fun join_comma :: "jsstring list \<Rightarrow> jsstring" where
  "join_comma [] = []"
| "join_comma [x] = x"
| "join_comma (x # y # ys) = x @ js '','' @ join_comma (y # ys)"

definition JSON_stringify :: "task list \<Rightarrow> jsstring" where
  "JSON_stringify ts = js ''['' @ join_comma (map stringify_task ts) @ js '']''"

text \<open>
  \<^verbatim>\<open>JSON.parse\<close> throws a \<^verbatim>\<open>SyntaxError\<close> unless the whole text is one JSON value
  between optional white space.
\<close>

definition JSON_parse :: "jsstring \<Rightarrow> error + json" where
  "JSON_parse s =
     (case parse_value s of
        None \<Rightarrow> Inl SyntaxError
      | Some (v, r) \<Rightarrow> if skip_ws r = [] then Inr v else Inl SyntaxError)"

text \<open>The value of a task array of the declared type, and the reading of a value at that type.\<close>

definition json_of_task :: "task \<Rightarrow> json" where
  "json_of_task t =
     JObj [(js ''id'', JStr (task_id t)),
           (js ''text'', JStr (task_text t)),
           (js ''createdAt'', JNum (of_int (createdAt t))),
           (js ''completed'', JBool (completed t)),
           (js ''completedAt'',
              (case completedAt t of None \<Rightarrow> JNull | Some a \<Rightarrow> JNum (of_int a)))]"

definition json_of_tasks :: "task list \<Rightarrow> json" where
  "json_of_tasks ts = JArr (map json_of_task ts)"

definition int_of_rat :: "rat \<Rightarrow> int option" where
  "int_of_rat q = (if of_int \<lfloor>q\<rfloor> = q then Some \<lfloor>q\<rfloor> else None)"

definition get_string :: "json option \<Rightarrow> jsstring option" where
  "get_string v = (case v of Some (JStr x) \<Rightarrow> Some x | _ \<Rightarrow> None)"

definition get_boolean :: "json option \<Rightarrow> bool option" where
  "get_boolean v = (case v of Some (JBool b) \<Rightarrow> Some b | _ \<Rightarrow> None)"

definition get_number :: "json option \<Rightarrow> int option" where
  "get_number v = (case v of Some (JNum q) \<Rightarrow> int_of_rat q | _ \<Rightarrow> None)"

definition get_number_or_null :: "json option \<Rightarrow> int option option" where
  "get_number_or_null v =
     (case v of
        Some JNull \<Rightarrow> Some None
      | Some (JNum q) \<Rightarrow> map_option Some (int_of_rat q)
      | _ \<Rightarrow> None)"

definition task_of_json :: "json \<Rightarrow> task option" where
  "task_of_json v =
     (case v of
        JObj m \<Rightarrow>
          (case get_string (map_of m (js ''id'')) of
             None \<Rightarrow> None
           | Some i \<Rightarrow>
          (case get_string (map_of m (js ''text'')) of
             None \<Rightarrow> None
           | Some x \<Rightarrow>
          (case get_number (map_of m (js ''createdAt'')) of
             None \<Rightarrow> None
           | Some n \<Rightarrow>
          (case get_boolean (map_of m (js ''completed'')) of
             None \<Rightarrow> None
           | Some b \<Rightarrow>
          (case get_number_or_null (map_of m (js ''completedAt'')) of
             None \<Rightarrow> None
           | Some a \<Rightarrow>
               Some \<lparr>task_id = i, task_text = x, createdAt = n, completed = b,
                     completedAt = a\<rparr>)))))
      | _ \<Rightarrow> None)"

fun those_tasks :: "json list \<Rightarrow> task list option" where
  "those_tasks [] = Some []"
| "those_tasks (v # vs) =
     (case task_of_json v of
        None \<Rightarrow> None
      | Some t \<Rightarrow> map_option ((#) t) (those_tasks vs))"

definition tasks_of_json :: "json \<Rightarrow> task list option" where
  "tasks_of_json v = (case v of JArr vs \<Rightarrow> those_tasks vs | _ \<Rightarrow> None)"

section \<open>The store\<close>

text \<open>
  The program state: the variable \<^verbatim>\<open>tasks\<close>, the browser's \<^verbatim>\<open>localStorage\<close>, the value
  of the input field, the messages shown by \<^verbatim>\<open>alert\<close> (latest first), and what
  \<^verbatim>\<open>render\<close> and \<^verbatim>\<open>updateCounts\<close> write to the page: the two lists, whether each
  empty-list note is displayed, and the counters.
\<close>

record page =
  pendingList :: "task list"
  completedList :: "task list"
  emptyPending :: bool
  emptyCompleted :: bool
  countTotal :: nat
  countPending :: nat
  countCompleted :: nat
  badgePending :: nat
  badgeCompleted :: nat

record state =
  tasks :: "task list"
  localStorage :: "jsstring \<Rightarrow> jsstring option"
  input_value :: jsstring
  alerts :: "jsstring list"
  els :: page

definition STORAGE_KEY :: jsstring where
  "STORAGE_KEY = js ''todo.tasks.v1''"

definition loadTasks :: "(jsstring \<Rightarrow> jsstring option) \<Rightarrow> json" where
  "loadTasks storage =
     (case storage STORAGE_KEY of
        None \<Rightarrow> JArr []
      | Some raw \<Rightarrow>
          if raw = [] then JArr []
          else (case JSON_parse raw of Inl e \<Rightarrow> JArr [] | Inr v \<Rightarrow> v))"

definition updateCounts :: "state \<Rightarrow> state" where
  "updateCounts s =
     (let total = length (tasks s);
          pending = length (filter (\<lambda>t. \<not> completed t) (tasks s));
          completed = total - pending
      in s\<lparr>els := (els s)\<lparr>countTotal := total, countPending := pending,
                            countCompleted := completed, badgePending := pending,
                            badgeCompleted := completed\<rparr>\<rparr>)"

definition saveTasks :: "state \<Rightarrow> state" where
  "saveTasks s =
     updateCounts (s\<lparr>localStorage := (localStorage s)(STORAGE_KEY \<mapsto> JSON_stringify (tasks s))\<rparr>)"

definition render :: "state \<Rightarrow> state" where
  "render s =
     (let pending = filter (\<lambda>t. \<not> completed t) (tasks s);
          completed = filter (\<lambda>t. completed t) (tasks s)
      in updateCounts
           (s\<lparr>els := (els s)\<lparr>pendingList := pending, completedList := completed,
                               emptyPending := (pending = []),
                               emptyCompleted := (completed = [])\<rparr>\<rparr>))"

text \<open>
  A function of the program returns (\<open>Inr\<close>, with the state it leaves) or throws
  (\<open>Inl\<close>). No statement of these functions throws; the write to \<^verbatim>\<open>localStorage\<close>
  is taken to succeed, as the program takes it. \<^verbatim>\<open>updateTask\<close> returns early when
  \<^verbatim>\<open>findIndex\<close> gives \<open>-1\<close>; \<^verbatim>\<open>commitEdit\<close> shows an alert and returns early when the
  trimmed text is empty. The class \<^verbatim>\<open>editing\<close> of the list item is not modelled.
\<close>

definition updateTask :: "jsstring \<Rightarrow> patch \<Rightarrow> state \<Rightarrow> error + state" where
  "updateTask i p s =
     (let idx = findIndex (\<lambda>t. task_id t = i) (tasks s)
      in if idx = - 1 then Inr s
         else Inr (render (saveTasks
                (s\<lparr>tasks := (tasks s)[nat idx := spread (tasks s ! nat idx) p]\<rparr>))))"

definition commitEdit :: "jsstring \<Rightarrow> jsstring \<Rightarrow> state \<Rightarrow> error + state" where
  "commitEdit edit_value i s =
     (let newText = trim edit_value
      in if newText = [] then Inr (s\<lparr>alerts := js ''Task cannot be empty.'' # alerts s\<rparr>)
         else updateTask i (no_patch\<lparr>patch_text := Some newText\<rparr>) s)"

text \<open>
  The handlers: checkbox change, delete, submit, clear all. What a handler reads from its
  environment is an argument: \<open>edit_value\<close> is the value of the item's edit field,
  \<open>checked\<close> the state of the checkbox, \<open>now\<close> the reading of \<^verbatim>\<open>Date.now()\<close>
  in the handler, \<open>confirmed\<close> the answer to \<^verbatim>\<open>confirm\<close>. The submit handler reads
  the clock twice: \<open>now\<close> for \<^verbatim>\<open>createdAt\<close>, and then, in the call of \<^verbatim>\<open>uid()\<close>, the
  random string \<open>rnd\<close> and the clock again, \<open>uid_now\<close>; the two readings of the clock
  need not be equal.
\<close>

definition checkbox_change :: "jsstring \<Rightarrow> bool \<Rightarrow> int \<Rightarrow> state \<Rightarrow> error + state" where
  "checkbox_change i checked now s =
     updateTask i
       (no_patch\<lparr>patch_completed := Some checked,
                 patch_completedAt := Some (if checked then Some now else None)\<rparr>) s"

definition delete_click :: "jsstring \<Rightarrow> bool \<Rightarrow> state \<Rightarrow> error + state" where
  "delete_click i confirmed s =
     (if confirmed
      then Inr (render (saveTasks (s\<lparr>tasks := filter (\<lambda>t. task_id t \<noteq> i) (tasks s)\<rparr>)))
      else Inr s)"

definition form_submit :: "int \<Rightarrow> jsstring \<Rightarrow> int \<Rightarrow> state \<Rightarrow> error + state" where
  "form_submit now rnd uid_now s =
     (let text = trim (input_value s)
      in if text = [] then Inr s
         else Inr (render (saveTasks
                (s\<lparr>tasks := \<lparr>task_id = uid rnd uid_now, task_text = text, createdAt = now,
                               completed = False, completedAt = None\<rparr> # tasks s,
                   input_value := []\<rparr>))))"

definition clearAll_click :: "bool \<Rightarrow> state \<Rightarrow> error + state" where
  "clearAll_click confirmed s =
     (if tasks s = [] then Inr s
      else if confirmed then Inr (render (saveTasks (s\<lparr>tasks := []\<rparr>)))
      else Inr s)"

section \<open>Notions used in the proofs\<close>

text \<open>
  The invariant of the data model: a task has a completion time exactly when it is
  completed.
\<close>

definition completedAt_invariant :: "task list \<Rightarrow> bool" where
  "completedAt_invariant ts = list_all (\<lambda>t. (completedAt t \<noteq> None) = completed t) ts"

text \<open>
  A number ends where the text ends or a character follows that cannot continue it; the
  characters QuoteJSONString writes as a two-character escape; the text and the value of
  the \<^verbatim>\<open>completedAt\<close> member; and the property that each of the three parsers returns no
  more input than it was given.
\<close>

definition number_stop :: "jsstring \<Rightarrow> bool" where
  "number_stop rest =
     (case rest of
        [] \<Rightarrow> True
      | c # _ \<Rightarrow> \<not> is_digit c \<and> c \<noteq> ch CHR ''.'' \<and> c \<noteq> ch CHR ''e'' \<and> c \<noteq> ch CHR ''E'')"

definition is_escaped :: "jschar \<Rightarrow> bool" where
  "is_escaped c \<longleftrightarrow>
     c = 0x08 \<or> c = 0x09 \<or> c = 0x0A \<or> c = 0x0C \<or> c = 0x0D \<or> c = 0x22 \<or> c = 0x5C"

definition completedAt_text :: "int option \<Rightarrow> jsstring" where
  "completedAt_text a = (case a of None \<Rightarrow> js ''null'' | Some n \<Rightarrow> Number_toString n)"

definition completedAt_json :: "int option \<Rightarrow> json" where
  "completedAt_json a = (case a of None \<Rightarrow> JNull | Some n \<Rightarrow> JNum (of_int n))"

definition consumes :: "jsstring \<Rightarrow> bool" where
  "consumes cs \<longleftrightarrow>
     (case parse_value cs of None \<Rightarrow> True | Some (v, r) \<Rightarrow> length r \<le> length cs)
     \<and> (case parse_elements cs of None \<Rightarrow> True | Some (vs, r) \<Rightarrow> length r \<le> length cs)
     \<and> (case parse_members cs of None \<Rightarrow> True | Some (ms, r) \<Rightarrow> length r \<le> length cs)"

text \<open>Example states: a store with nothing in it, and one with two tasks.\<close>

definition blank_page :: page where
  "blank_page =
     \<lparr>pendingList = [], completedList = [], emptyPending = True, emptyCompleted = True,
      countTotal = 0, countPending = 0, countCompleted = 0, badgePending = 0,
      badgeCompleted = 0\<rparr>"

definition empty_store :: state where
  "empty_store =
     \<lparr>tasks = [], localStorage = Map.empty, input_value = [], alerts = [], els = blank_page\<rparr>"

definition walk_dog :: task where
  "walk_dog =
     \<lparr>task_id = js ''k3v9x2pqa7f1'', task_text = js ''Walk dog'', createdAt = 2000,
      completed = False, completedAt = None\<rparr>"

definition buy_milk :: task where
  "buy_milk =
     \<lparr>task_id = js ''b8m4t6zw01cd'', task_text = js ''Buy milk'', createdAt = 1000,
      completed = True, completedAt = Some 3000\<rparr>"

definition example_store :: state where
  "example_store = empty_store\<lparr>tasks := [walk_dog, buy_milk]\<rparr>"

definition typing_store :: state where
  "typing_store = example_store\<lparr>input_value := js ''  Feed cat ''\<rparr>"

definition blank_input_store :: state where
  "blank_input_store = example_store\<lparr>input_value := js ''   ''\<rparr>"

section \<open>Basic facts\<close>

declare digits10.simps [simp del] digits36.simps [simp del]

lemma findIndex_ge: "findIndex P xs = - 1 \<or> 0 \<le> findIndex P xs"
  by (induction xs) (auto simp: Let_def)

lemma findIndex_none: "findIndex P xs = - 1 \<longleftrightarrow> (\<forall>x \<in> set xs. \<not> P x)"
proof (induction xs)
  case Nil
  show ?case by simp
next
  case (Cons x xs)
  with findIndex_ge [of P xs] show ?case by (auto simp: Let_def)
qed

lemma findIndex_found:
  "findIndex P xs \<noteq> - 1 \<Longrightarrow>
     nat (findIndex P xs) < length xs \<and> P (xs ! nat (findIndex P xs))
     \<and> (\<forall>j < nat (findIndex P xs). \<not> P (xs ! j))"
proof (induction xs)
  case Nil
  then show ?case by simp
next
  case (Cons x xs)
  show ?case
  proof (cases "P x")
    case True
    then show ?thesis by simp
  next
    case False
    with Cons.prems have ne: "findIndex P xs \<noteq> - 1"
      by (auto simp: Let_def split: if_splits)
    then have ge: "0 \<le> findIndex P xs" using findIndex_ge [of P xs] by simp
    then have n: "nat (findIndex P xs + 1) = Suc (nat (findIndex P xs))" by simp
    from Cons.IH [OF ne] False ne n show ?thesis
      by (auto simp: Let_def less_Suc_eq_0_disj)
  qed
qed

lemma tasks_updateCounts [simp]: "tasks (updateCounts s) = tasks s"
  by (simp add: updateCounts_def Let_def)
lemma tasks_saveTasks [simp]: "tasks (saveTasks s) = tasks s"
  by (simp add: saveTasks_def)
lemma tasks_render [simp]: "tasks (render s) = tasks s"
  by (simp add: render_def Let_def)

lemma localStorage_updateCounts [simp]: "localStorage (updateCounts s) = localStorage s"
  by (simp add: updateCounts_def Let_def)
lemma localStorage_render [simp]: "localStorage (render s) = localStorage s"
  by (simp add: render_def Let_def)
lemma localStorage_saveTasks [simp]:
  "localStorage (saveTasks s) = (localStorage s)(STORAGE_KEY \<mapsto> JSON_stringify (tasks s))"
  by (simp add: saveTasks_def)

lemma pendingList_render [simp]:
  "pendingList (els (render s)) = filter (\<lambda>t. \<not> completed t) (tasks s)"
  by (simp add: render_def updateCounts_def Let_def)
lemma completedList_render [simp]:
  "completedList (els (render s)) = filter completed (tasks s)"
  by (simp add: render_def updateCounts_def Let_def)
lemma countTotal_render [simp]: "countTotal (els (render s)) = length (tasks s)"
  by (simp add: render_def updateCounts_def Let_def)

lemma trim_decompose:
  "\<exists>a b. s = a @ trim s @ b \<and> list_all is_white_space a \<and> list_all is_white_space b"
proof -
  define d where "d = dropWhile is_white_space s"
  have s: "s = takeWhile is_white_space s @ d"
    by (simp add: d_def)
  have "trim s @ rev (takeWhile is_white_space (rev d))
          = rev (takeWhile is_white_space (rev d) @ dropWhile is_white_space (rev d))"
    by (simp only: rev_append trim_def d_def)
  also have "\<dots> = rev (rev d)"
    by (simp only: takeWhile_dropWhile_id)
  finally have d: "d = trim s @ rev (takeWhile is_white_space (rev d))"
    by simp
  have a: "list_all is_white_space (takeWhile is_white_space s)"
    by (simp add: list_all_iff) (meson set_takeWhileD)
  have b: "list_all is_white_space (rev (takeWhile is_white_space (rev d)))"
    by (simp add: list_all_iff) (meson set_takeWhileD)
  from s d have "s = takeWhile is_white_space s @ trim s @ rev (takeWhile is_white_space (rev d))"
    by simp
  with a b show ?thesis by blast
qed

lemma trim_ends:
  assumes "trim s \<noteq> []"
  shows "\<not> is_white_space (hd (trim s))" and "\<not> is_white_space (last (trim s))"
proof -
  define d where "d = dropWhile is_white_space s"
  define e where "e = dropWhile is_white_space (rev d)"
  have t: "trim s = rev e" by (simp add: trim_def d_def e_def)
  with assms have ne: "e \<noteq> []" by simp
  then have "\<not> is_white_space (hd e)"
    unfolding e_def by (rule hd_dropWhile)
  with ne show "\<not> is_white_space (last (trim s))"
    by (simp add: t last_rev)
  have "rev e @ rev (takeWhile is_white_space (rev d))
          = rev (takeWhile is_white_space (rev d) @ dropWhile is_white_space (rev d))"
    by (simp only: rev_append e_def)
  also have "\<dots> = rev (rev d)"
    by (simp only: takeWhile_dropWhile_id)
  finally have d: "d = rev e @ rev (takeWhile is_white_space (rev d))"
    by simp
  with ne have hd: "hd d = hd (rev e)" and dne: "d \<noteq> []"
    by (metis hd_append2 rev_is_Nil_conv, metis append_is_Nil_conv rev_is_Nil_conv)
  from dne have "\<not> is_white_space (hd d)"
    unfolding d_def by (rule hd_dropWhile)
  with hd show "\<not> is_white_space (hd (trim s))"
    by (simp add: t)
qed

lemma trim_empty_iff: "trim s = [] \<longleftrightarrow> list_all is_white_space s"
proof (cases "dropWhile is_white_space s = []")
  case True
  then have "list_all is_white_space s"
    by (simp add: list_all_iff dropWhile_eq_Nil_conv)
  moreover from True have "trim s = []"
    by (simp add: trim_def del: dropWhile_eq_Nil_conv)
  ultimately show ?thesis by simp
next
  case False
  then have "\<not> is_white_space (hd (dropWhile is_white_space s))"
    by (rule hd_dropWhile)
  with False have "\<not> (\<forall>x \<in> set (dropWhile is_white_space s). is_white_space x)"
    by (meson hd_in_set)
  then have "trim s \<noteq> []"
    by (simp add: trim_def dropWhile_eq_Nil_conv)
  moreover from False have "\<not> list_all is_white_space s"
    by (simp add: list_all_iff dropWhile_eq_Nil_conv)
  ultimately show ?thesis by simp
qed

lemma updateTask_known:
  assumes "i \<in> task_id ` set (tasks s)"
  shows "\<exists>k. k < length (tasks s) \<and> task_id (tasks s ! k) = i
           \<and> (\<forall>j < k. task_id (tasks s ! j) \<noteq> i)
           \<and> updateTask i p s =
               Inr (render (saveTasks (s\<lparr>tasks := (tasks s)[k := spread (tasks s ! k) p]\<rparr>)))"
proof -
  from assms have ne: "findIndex (\<lambda>t. task_id t = i) (tasks s) \<noteq> - 1"
    by (auto simp: findIndex_none)
  from findIndex_found [OF ne] ne show ?thesis
    by (auto simp: updateTask_def Let_def)
qed

lemma task_id_spread [simp]: "task_id (spread t p) = task_id t"
  by (simp add: spread_def)

lemma createdAt_spread [simp]: "createdAt (spread t p) = createdAt t"
  by (simp add: spread_def)

lemma uid_parts:
  "uid rnd t = take 8 (drop 2 rnd) @ drop (length (toString36 t) - 4) (toString36 t)"
  by (simp add: uid_def slice_def slice_last_def)

lemma uid_eq_iff:
  assumes "length (take 8 (drop 2 rnd')) = length (take 8 (drop 2 rnd))"
  shows "uid rnd' t' = uid rnd t
           \<longleftrightarrow> take 8 (drop 2 rnd') = take 8 (drop 2 rnd)
               \<and> drop (length (toString36 t') - 4) (toString36 t')
                   = drop (length (toString36 t) - 4) (toString36 t)"
  unfolding uid_parts using assms by (intro append_eq_append_conv disjI1)

lemma length_digits36: "36 ^ k \<le> n \<Longrightarrow> k < length (digits36 n)"
proof (induction k arbitrary: n)
  case 0
  show ?case by (subst digits36.simps) simp
next
  case (Suc k)
  from Suc.prems have p: "36 * 36 ^ k \<le> n" by simp
  have "(36::nat) \<le> 36 * 36 ^ k" by simp
  then have "36 \<le> n" using p by (rule order_trans)
  then have n: "\<not> n < 36" by simp
  from p have "(36 * 36 ^ k) div 36 \<le> n div 36" by (rule div_le_mono)
  then have "36 ^ k \<le> n div 36" by simp
  then have "k < length (digits36 (n div 36))" by (rule Suc.IH)
  with n show ?case by (subst digits36.simps) simp
qed

lemma length_uid:
  assumes "10 \<le> length rnd" "36 ^ 3 \<le> t"
  shows "length (uid rnd t) = 12"
proof -
  from assms(2) have t: "\<not> t < 0" "(36::nat) ^ 3 \<le> nat t" by simp_all
  from length_digits36 [OF t(2)] t(1) have "4 \<le> length (toString36 t)"
    by (simp add: toString36_def)
  with assms(1) show ?thesis by (simp add: uid_parts)
qed

lemma toString36_example:
  "toString36 1700000000001 = js ''loyw3v29''"
  "toString36 1700000000002 = js ''loyw3v2a''"
  by (simp_all add: toString36_def digits36.simps digit36_def)

lemma uid_example:
  "uid (js ''0.4fzyo82mvyr'') 1700000000001 = js ''4fzyo82m3v29''"
  "uid (js ''0.9k2c7d1xw5q'') 1700000000001 \<noteq> js ''4fzyo82m3v29''"
  "uid (js ''0.4fzyo82mvyr'') 1700000000002 \<noteq> js ''4fzyo82m3v29''"
  "length (js ''4fzyo82m3v29'') = 12"
  using toString36_example by (simp_all add: uid_parts)

lemma trim_feed_cat: "trim (js ''  Feed cat '') = js ''Feed cat''"
  by (simp add: trim_def is_white_space_def)

lemma trim_blank: "trim (js ''   '') = []"
  by (simp add: trim_def is_white_space_def)

section \<open>Facts about the JSON functions\<close>

declare parse_value.simps [simp del] parse_elements.simps [simp del] parse_members.simps [simp del]
subsection \<open>Digits\<close>

lemma unat_digit10: "d < 10 \<Longrightarrow> unat (digit10 d) = 48 + d"
  unfolding digit10_def by (subst unat_of_nat) simp

lemma is_digit_digit10: "d < 10 \<Longrightarrow> is_digit (digit10 d)"
  by (simp add: is_digit_def word_le_nat_alt unat_digit10)

lemma digits10_not_Nil: "digits10 n \<noteq> []"
  by (subst digits10.simps) simp

lemma digits10_all_digits: "\<forall>c \<in> set (digits10 n). is_digit c"
proof (induction n rule: digits10.induct)
  case (1 n)
  show ?case
  proof (cases "n < 10")
    case True
    then show ?thesis by (subst digits10.simps) (simp add: is_digit_digit10)
  next
    case False
    with 1 show ?thesis by (subst digits10.simps) (simp add: is_digit_digit10)
  qed
qed

lemma nat_of_digits_Nil: "nat_of_digits [] = 0"
  by (simp add: nat_of_digits_def)

lemma nat_of_digits_snoc:
  "nat_of_digits (ds @ [c]) = 10 * nat_of_digits ds + (unat c - 48)"
  by (simp add: nat_of_digits_def)

lemma nat_of_digits_digits10: "nat_of_digits (digits10 n) = n"
proof (induction n rule: digits10.induct)
  case (1 n)
  show ?case
  proof (cases "n < 10")
    case True
    then show ?thesis
      by (subst digits10.simps) (simp add: nat_of_digits_def unat_digit10)
  next
    case False
    with 1 show ?thesis
      by (subst digits10.simps) (simp add: nat_of_digits_snoc unat_digit10)
  qed
qed

lemma hd_digits10: "0 < n \<Longrightarrow> hd (digits10 n) \<noteq> ch CHR ''0''"
proof (induction n rule: digits10.induct)
  case (1 n)
  show ?case
  proof (cases "n < 10")
    case True
    with 1(2) have "unat (digit10 n) \<noteq> unat (ch CHR ''0'')"
      by (simp add: unat_digit10)
    then have "digit10 n \<noteq> ch CHR ''0''" by metis
    with True show ?thesis by (subst digits10.simps) simp
  next
    case False
    then have "0 < n div 10" by simp
    with 1(1) False have "hd (digits10 (n div 10)) \<noteq> ch CHR ''0''" by simp
    with False show ?thesis
      by (subst digits10.simps) (simp add: digits10_not_Nil)
  qed
qed

lemma length_digits10_one: "1 < length (digits10 n) \<Longrightarrow> 0 < n"
  by (subst (asm) digits10.simps) (simp split: if_splits)

lemma takeWhile_digits:
  "\<forall>c \<in> set ds. is_digit c \<Longrightarrow> number_stop rest \<Longrightarrow> takeWhile is_digit (ds @ rest) = ds"
  by (cases rest) (simp_all add: number_stop_def takeWhile_append2)

lemma dropWhile_digits:
  "\<forall>c \<in> set ds. is_digit c \<Longrightarrow> number_stop rest \<Longrightarrow> dropWhile is_digit (ds @ rest) = rest"
  by (cases rest) (simp_all add: number_stop_def dropWhile_append2)

lemma parse_unsigned:
  assumes "number_stop rest"
  shows "parse_number (digits10 n @ rest) = Some (of_nat n, rest)"
proof -
  have nm: "hd (digits10 n) \<noteq> ch CHR ''-''"
    using digits10_all_digits [of n] digits10_not_Nil [of n]
    by (cases "digits10 n") (auto simp: is_digit_def)
  obtain c r where cr: "digits10 n @ rest = c # r" "c \<noteq> ch CHR ''-''"
    using nm digits10_not_Nil [of n] by (cases "digits10 n") auto
  have tw: "takeWhile is_digit (digits10 n @ rest) = digits10 n"
    and dw: "dropWhile is_digit (digits10 n @ rest) = rest"
    by (rule takeWhile_digits [OF digits10_all_digits assms],
        rule dropWhile_digits [OF digits10_all_digits assms])
  have lead: "\<not> (1 < length (digits10 n) \<and> hd (digits10 n) = ch CHR ''0'')"
    using hd_digits10 [of n] length_digits10_one [of n] by blast
  have fr: "parse_frac rest = Some ([], rest)"
    using assms by (cases rest) (simp_all add: parse_frac_def number_stop_def)
  have ex: "parse_exp rest = Some (0, rest)"
    using assms by (cases rest) (simp_all add: parse_exp_def number_stop_def)
  have sg: "(case digits10 n @ rest of
               [] \<Rightarrow> (False, digits10 n @ rest)
             | c # r \<Rightarrow> if c = ch CHR ''-'' then (True, r) else (False, digits10 n @ rest))
            = (False, digits10 n @ rest)"
    using cr by simp
  show ?thesis
    unfolding parse_number_def sg
    using lead digits10_not_Nil [of n]
    by (simp add: Let_def tw dw fr ex nat_of_digits_digits10 nat_of_digits_Nil)
qed

lemma parse_negative:
  assumes "number_stop rest"
  shows "parse_number (ch CHR ''-'' # digits10 m @ rest) = Some (- of_nat m, rest)"
proof -
  have tw: "takeWhile is_digit (digits10 m @ rest) = digits10 m"
    and dw: "dropWhile is_digit (digits10 m @ rest) = rest"
    by (rule takeWhile_digits [OF digits10_all_digits assms],
        rule dropWhile_digits [OF digits10_all_digits assms])
  have lead: "\<not> (1 < length (digits10 m) \<and> hd (digits10 m) = ch CHR ''0'')"
    using hd_digits10 [of m] length_digits10_one [of m] by blast
  have fr: "parse_frac rest = Some ([], rest)"
    using assms by (cases rest) (simp_all add: parse_frac_def number_stop_def)
  have ex: "parse_exp rest = Some (0, rest)"
    using assms by (cases rest) (simp_all add: parse_exp_def number_stop_def)
  show ?thesis
    unfolding parse_number_def
    using lead digits10_not_Nil [of m]
    by (simp add: Let_def tw dw fr ex nat_of_digits_digits10 nat_of_digits_Nil)
qed

lemma parse_Number_toString:
  assumes "number_stop rest"
  shows "parse_number (Number_toString n @ rest) = Some (of_int n, rest)"
proof (cases "n < 0")
  case True
  then have "(- of_nat (nat (- n)) :: rat) = of_int n" by simp
  with True parse_negative [OF assms, of "nat (- n)"] show ?thesis
    by (simp add: Number_toString_def)
next
  case False
  then have "(of_nat (nat n) :: rat) = of_int n" by simp
  with False parse_unsigned [OF assms, of "nat n"] show ?thesis
    by (simp add: Number_toString_def)
qed

lemma Number_toString_first:
  "\<exists>c r. Number_toString n = c # r \<and> (c = ch CHR ''-'' \<or> is_digit c)"
proof (cases "n < 0")
  case True
  then show ?thesis by (simp add: Number_toString_def)
next
  case False
  obtain c r where cr: "digits10 (nat n) = c # r"
    using digits10_not_Nil [of "nat n"] by (cases "digits10 (nat n)") auto
  with digits10_all_digits [of "nat n"] have "is_digit c" by simp
  with False cr show ?thesis by (simp add: Number_toString_def)
qed

subsection \<open>Strings\<close>

lemma hex_value_hex_digit: "d < 16 \<Longrightarrow> hex_value (hex_digit d) = Some d"
proof -
  assume d: "d < 16"
  show ?thesis
  proof (cases "d < 10")
    case True
    then have u: "unat (of_nat (48 + d) :: jschar) = 48 + d"
      by (subst unat_of_nat) simp
    with True show ?thesis
      by (simp add: hex_value_def hex_digit_def word_le_nat_alt del: of_nat_add)
  next
    case False
    with d have u: "unat (of_nat (97 + (d - 10)) :: jschar) = 97 + (d - 10)"
      by (subst unat_of_nat) simp
    with False d show ?thesis
      by (simp add: hex_value_def hex_digit_def word_le_nat_alt del: of_nat_add of_nat_diff)
  qed
qed

lemma hex4_arith:
  "((n div 4096 * 16 + n div 256 mod 16) * 16 + n div 16 mod 16) * 16 + n mod 16 = (n::nat)"
proof -
  have d256: "n div 256 = n div 16 div 16"
    using div_mult2_eq [of n 16 16] by simp
  have d4096: "n div 4096 = n div 256 div 16"
    using div_mult2_eq [of n 256 16] by simp
  have "n div 4096 * 16 + n div 256 mod 16 = n div 256"
    unfolding d4096 by (rule div_mult_mod_eq)
  moreover have "n div 256 * 16 + n div 16 mod 16 = n div 16"
    unfolding d256 by (rule div_mult_mod_eq)
  moreover have "n div 16 * 16 + n mod 16 = n"
    by (rule div_mult_mod_eq)
  ultimately show ?thesis by (simp only:)
qed

lemma unhex4_unicode_escape:
  "unhex4 (hex_digit (unat c div 4096)) (hex_digit (unat c div 256 mod 16))
          (hex_digit (unat c div 16 mod 16)) (hex_digit (unat c mod 16)) = Some (c :: jschar)"
proof -
  have lt: "unat c < 65536"
    using unsigned_less [of c] by simp
  then have "unat c div 4096 < 16" by simp
  with hex4_arith [of "unat c"] show ?thesis
    by (simp add: unhex4_def hex_value_hex_digit)
qed

lemma parse_unicode_escape:
  "parse_string_chars (unicode_escape c @ r) = map_option (apfst ((#) c)) (parse_string_chars r)"
  using unhex4_unicode_escape [of c] by (simp add: unicode_escape_def)

lemma surrogate_plain:
  "is_lead_surrogate c \<or> is_trail_surrogate c \<Longrightarrow> c \<noteq> 0x22 \<and> c \<noteq> 0x5C \<and> \<not> c < 0x20"
  by (auto simp: is_lead_surrogate_def is_trail_surrogate_def word_le_nat_alt word_less_nat_alt)

lemma parse_escaped:
  assumes "is_escaped c"
  shows "parse_string_chars (quote_chars (c # cs) @ r)
           = map_option (apfst ((#) c)) (parse_string_chars (quote_chars cs @ r))"
  using assms unfolding is_escaped_def
  by (elim disjE) (simp_all add: unescape_def)

lemma quote_chars_control:
  "\<not> is_escaped c \<Longrightarrow> c < 0x20 \<Longrightarrow> quote_chars (c # cs) = unicode_escape c @ quote_chars cs"
  by (simp add: is_escaped_def)

lemma quote_chars_lone_lead:
  "\<not> is_escaped c \<Longrightarrow> \<not> c < 0x20 \<Longrightarrow> is_lead_surrogate c \<Longrightarrow>
     (case cs of [] \<Rightarrow> True | d # _ \<Rightarrow> \<not> is_trail_surrogate d) \<Longrightarrow>
     quote_chars (c # cs) = unicode_escape c @ quote_chars cs"
  by (cases cs) (simp_all add: is_escaped_def)

lemma quote_chars_pair:
  "\<not> is_escaped c \<Longrightarrow> \<not> c < 0x20 \<Longrightarrow> is_lead_surrogate c \<Longrightarrow> is_trail_surrogate d \<Longrightarrow>
     quote_chars (c # d # ds) = c # d # quote_chars ds"
  by (simp add: is_escaped_def)

lemma quote_chars_lone_trail:
  "\<not> is_escaped c \<Longrightarrow> \<not> c < 0x20 \<Longrightarrow> \<not> is_lead_surrogate c \<Longrightarrow> is_trail_surrogate c \<Longrightarrow>
     quote_chars (c # cs) = unicode_escape c @ quote_chars cs"
  by (simp add: is_escaped_def)

lemma quote_chars_plain:
  "\<not> is_escaped c \<Longrightarrow> \<not> c < 0x20 \<Longrightarrow> \<not> is_lead_surrogate c \<Longrightarrow> \<not> is_trail_surrogate c \<Longrightarrow>
     quote_chars (c # cs) = c # quote_chars cs"
  by (simp add: is_escaped_def)

lemma not_escaped_plain: "\<not> is_escaped c \<Longrightarrow> c \<noteq> 0x22 \<and> c \<noteq> 0x5C"
  by (simp add: is_escaped_def)

declare quote_chars.simps [simp del] parse_string_chars.simps [simp del]

lemma parse_quote_chars:
  "parse_string_chars (quote_chars s @ 0x22 # rest) = Some (s, rest)"
proof (induction "length s" arbitrary: s rule: less_induct)
  case less
  show ?case
  proof (cases s)
    case Nil
    then show ?thesis by (simp add: quote_chars.simps parse_string_chars.simps)
  next
    case (Cons c cs)
    have ih: "parse_string_chars (quote_chars cs @ 0x22 # rest) = Some (cs, rest)"
      using less [of cs] Cons by simp
    show ?thesis
    proof (cases "is_escaped c")
      case True
      from parse_escaped [OF True, of cs "0x22 # rest"] ih show ?thesis
        by (simp add: Cons)
    next
      case ne: False
      show ?thesis
      proof (cases "c < 0x20")
        case True
        with ne ih show ?thesis
          by (simp add: Cons quote_chars_control parse_unicode_escape)
      next
        case nc: False
        from ne nc have plain: "parse_string_chars (c # r)
            = map_option (apfst ((#) c)) (parse_string_chars r)" for r
          using not_escaped_plain [of c] by (simp add: parse_string_chars.simps)
        show ?thesis
        proof (cases "is_lead_surrogate c")
          case lead: True
          show ?thesis
          proof (cases "case cs of [] \<Rightarrow> True | d # _ \<Rightarrow> \<not> is_trail_surrogate d")
            case True
            with ne nc lead ih show ?thesis
              by (simp add: Cons quote_chars_lone_lead parse_unicode_escape)
          next
            case False
            then obtain d ds where cs: "cs = d # ds" and d: "is_trail_surrogate d"
              by (cases cs) auto
            have ih2: "parse_string_chars (quote_chars ds @ 0x22 # rest) = Some (ds, rest)"
              using less [of ds] Cons cs by simp
            from d have "d \<noteq> 0x22" "d \<noteq> 0x5C" "\<not> d < 0x20"
              using surrogate_plain [of d] by simp_all
            then have pd: "parse_string_chars (d # r)
                = map_option (apfst ((#) d)) (parse_string_chars r)" for r
              by (simp add: parse_string_chars.simps)
            from ne nc lead d ih2 show ?thesis
              by (simp add: Cons cs quote_chars_pair plain pd)
          qed
        next
          case nl: False
          show ?thesis
          proof (cases "is_trail_surrogate c")
            case True
            with ne nc nl ih show ?thesis
              by (simp add: Cons quote_chars_lone_trail parse_unicode_escape)
          next
            case False
            with ne nc nl ih show ?thesis
              by (simp add: Cons quote_chars_plain plain)
          qed
        qed
      qed
    qed
  qed
qed

subsection \<open>Values\<close>

lemma pv_array_empty: "parse_value (ch CHR ''['' # ch CHR '']'' # r) = Some (JArr [], r)"
  by (subst parse_value.simps) (simp add: skip_ws_def is_json_ws_def)

lemma pv_array:
  "\<not> is_json_ws c \<Longrightarrow> c \<noteq> ch CHR '']'' \<Longrightarrow>
     parse_value (ch CHR ''['' # c # r) = map_option (apfst JArr) (parse_elements (c # r))"
  by (subst parse_value.simps) (simp add: skip_ws_def is_json_ws_def)

lemma pv_object:
  "\<not> is_json_ws c \<Longrightarrow> c \<noteq> ch CHR ''}'' \<Longrightarrow>
     parse_value (ch CHR ''{'' # c # r)
       = map_option (apfst (JObj \<circ> object_of)) (parse_members (c # r))"
  by (subst parse_value.simps) (simp add: skip_ws_def is_json_ws_def)

lemma pv_string: "parse_value (0x22 # r) = map_option (apfst JStr) (parse_string_chars r)"
  by (subst parse_value.simps) (simp add: skip_ws_def is_json_ws_def)

lemma pv_number:
  "c = ch CHR ''-'' \<or> is_digit c \<Longrightarrow>
     parse_value (c # r) = map_option (apfst JNum) (parse_number (c # r))"
  by (subst parse_value.simps)
     (auto simp: skip_ws_def is_json_ws_def is_digit_def word_le_nat_alt)

lemma pv_literal:
  "c = ch CHR ''t'' \<or> c = ch CHR ''f'' \<or> c = ch CHR ''n'' \<Longrightarrow>
     parse_value (c # r) = parse_literal (c # r)"
  by (subst parse_value.simps)
     (auto simp: skip_ws_def is_json_ws_def is_digit_def word_le_nat_alt)

lemma parse_value_quote: "parse_value (quote s @ rest) = Some (JStr s, rest)"
  using parse_quote_chars [of s rest] by (simp add: quote_def pv_string)

lemma parse_value_Number:
  assumes "number_stop rest"
  shows "parse_value (Number_toString n @ rest) = Some (JNum (of_int n), rest)"
proof -
  obtain c r where cr: "Number_toString n = c # r" "c = ch CHR ''-'' \<or> is_digit c"
    using Number_toString_first [of n] by blast
  from pv_number [OF cr(2), of "r @ rest"] parse_Number_toString [OF assms, of n]
  show ?thesis by (simp add: cr(1))
qed

lemma parse_value_bool:
  "parse_value ((if b then js ''true'' else js ''false'') @ rest) = Some (JBool b, rest)"
  by (cases b) (simp_all add: pv_literal parse_literal_def)

lemma parse_value_null: "parse_value (js ''null'' @ rest) = Some (JNull, rest)"
  by (simp add: pv_literal parse_literal_def)

lemma number_stop_sep:
  "number_stop (ch CHR '','' # r)" "number_stop (ch CHR ''}'' # r)"
  by (simp_all add: number_stop_def is_digit_def)

subsection \<open>Members\<close>

lemma parse_member_more:
  assumes "parse_value (vs @ ch CHR '','' # nxt) = Some (v, ch CHR '','' # nxt)"
  shows "parse_members (quote k @ ch CHR '':'' # vs @ ch CHR '','' # nxt)
           = map_option (apfst ((#) (k, v))) (parse_members nxt)"
  using parse_quote_chars [of k "ch CHR '':'' # vs @ ch CHR '','' # nxt"] assms
  by (subst parse_members.simps) (simp add: quote_def skip_ws_def is_json_ws_def)

lemma parse_member_last:
  assumes "parse_value (vs @ ch CHR ''}'' # rest) = Some (v, ch CHR ''}'' # rest)"
  shows "parse_members (quote k @ ch CHR '':'' # vs @ ch CHR ''}'' # rest) = Some ([(k, v)], rest)"
  using parse_quote_chars [of k "ch CHR '':'' # vs @ ch CHR ''}'' # rest"] assms
  by (subst parse_members.simps) (simp add: quote_def skip_ws_def is_json_ws_def)

lemma parse_completedAt:
  "parse_value (completedAt_text a @ ch CHR ''}'' # rest)
     = Some (completedAt_json a, ch CHR ''}'' # rest)"
proof (cases a)
  case None
  then show ?thesis
    using parse_value_null [of "ch CHR ''}'' # rest"]
    by (simp add: completedAt_text_def completedAt_json_def)
next
  case (Some n)
  then show ?thesis
    using parse_value_Number [OF number_stop_sep(2), of n rest]
    by (simp add: completedAt_text_def completedAt_json_def)
qed

lemma parse_task_members:
  "parse_members
     (quote (js ''id'') @ ch CHR '':'' # quote (task_id t)
      @ ch CHR '','' # quote (js ''text'') @ ch CHR '':'' # quote (task_text t)
      @ ch CHR '','' # quote (js ''createdAt'') @ ch CHR '':'' # Number_toString (createdAt t)
      @ ch CHR '','' # quote (js ''completed'') @ ch CHR '':''
          # (if completed t then js ''true'' else js ''false'')
      @ ch CHR '','' # quote (js ''completedAt'') @ ch CHR '':'' # completedAt_text (completedAt t)
      @ ch CHR ''}'' # rest)
   = Some ([(js ''id'', JStr (task_id t)), (js ''text'', JStr (task_text t)),
            (js ''createdAt'', JNum (of_int (createdAt t))),
            (js ''completed'', JBool (completed t)),
            (js ''completedAt'', completedAt_json (completedAt t))], rest)"
proof -
  note m = parse_member_more [OF parse_value_quote] parse_member_more [OF parse_value_Number [OF number_stop_sep(1)]]
    parse_member_more [OF parse_value_bool]
  have 5: "parse_members (quote (js ''completedAt'') @ ch CHR '':'' # completedAt_text (completedAt t)
      @ ch CHR ''}'' # rest) = Some ([(js ''completedAt'', completedAt_json (completedAt t))], rest)"
    by (rule parse_member_last [OF parse_completedAt])
  have 4: "parse_members (quote (js ''completed'') @ ch CHR '':''
          # (if completed t then js ''true'' else js ''false'')
      @ ch CHR '','' # quote (js ''completedAt'') @ ch CHR '':'' # completedAt_text (completedAt t)
      @ ch CHR ''}'' # rest) = Some ([(js ''completed'', JBool (completed t)),
            (js ''completedAt'', completedAt_json (completedAt t))], rest)"
    using 5 by (subst m(3)) simp
  have 3: "parse_members (quote (js ''createdAt'') @ ch CHR '':'' # Number_toString (createdAt t)
      @ ch CHR '','' # quote (js ''completed'') @ ch CHR '':''
          # (if completed t then js ''true'' else js ''false'')
      @ ch CHR '','' # quote (js ''completedAt'') @ ch CHR '':'' # completedAt_text (completedAt t)
      @ ch CHR ''}'' # rest) = Some ([(js ''createdAt'', JNum (of_int (createdAt t))),
            (js ''completed'', JBool (completed t)),
            (js ''completedAt'', completedAt_json (completedAt t))], rest)"
    using 4 by (subst m(2)) simp
  have 2: "parse_members (quote (js ''text'') @ ch CHR '':'' # quote (task_text t)
      @ ch CHR '','' # quote (js ''createdAt'') @ ch CHR '':'' # Number_toString (createdAt t)
      @ ch CHR '','' # quote (js ''completed'') @ ch CHR '':''
          # (if completed t then js ''true'' else js ''false'')
      @ ch CHR '','' # quote (js ''completedAt'') @ ch CHR '':'' # completedAt_text (completedAt t)
      @ ch CHR ''}'' # rest) = Some ([(js ''text'', JStr (task_text t)),
            (js ''createdAt'', JNum (of_int (createdAt t))),
            (js ''completed'', JBool (completed t)),
            (js ''completedAt'', completedAt_json (completedAt t))], rest)"
    using 3 by (subst m(1)) simp
  show ?thesis
    using 2 by (subst m(1)) simp
qed

lemma pv_object_hd:
  "X \<noteq> [] \<Longrightarrow> \<not> is_json_ws (hd X) \<Longrightarrow> hd X \<noteq> ch CHR ''}'' \<Longrightarrow>
     parse_value (ch CHR ''{'' # X) = map_option (apfst (JObj \<circ> object_of)) (parse_members X)"
  using pv_object [of "hd X" "tl X"] by simp

lemma pv_array_hd:
  "X \<noteq> [] \<Longrightarrow> \<not> is_json_ws (hd X) \<Longrightarrow> hd X \<noteq> ch CHR '']'' \<Longrightarrow>
     parse_value (ch CHR ''['' # X) = map_option (apfst JArr) (parse_elements X)"
  using pv_array [of "hd X" "tl X"] by simp

lemma object_of_task:
  "object_of [(js ''id'', a), (js ''text'', b), (js ''createdAt'', c), (js ''completed'', d),
              (js ''completedAt'', e)]
     = [(js ''id'', a), (js ''text'', b), (js ''createdAt'', c), (js ''completed'', d),
        (js ''completedAt'', e)]"
  by (simp add: object_of_def)

lemma stringify_task_Cons: "\<exists>r. stringify_task t = ch CHR ''{'' # r"
  by (simp add: stringify_task_def)

lemma parse_value_task:
  "parse_value (stringify_task t @ rest) = Some (json_of_task t, rest)"
proof -
  let ?X = "quote (js ''id'') @ ch CHR '':'' # quote (task_id t)
      @ ch CHR '','' # quote (js ''text'') @ ch CHR '':'' # quote (task_text t)
      @ ch CHR '','' # quote (js ''createdAt'') @ ch CHR '':'' # Number_toString (createdAt t)
      @ ch CHR '','' # quote (js ''completed'') @ ch CHR '':''
          # (if completed t then js ''true'' else js ''false'')
      @ ch CHR '','' # quote (js ''completedAt'') @ ch CHR '':'' # completedAt_text (completedAt t)
      @ ch CHR ''}'' # rest"
  have eq: "stringify_task t @ rest = ch CHR ''{'' # ?X"
    by (simp add: stringify_task_def completedAt_text_def)
  have hd: "?X \<noteq> []" "\<not> is_json_ws (hd ?X)" "hd ?X \<noteq> ch CHR ''}''"
    by (simp_all add: quote_def is_json_ws_def)
  have "parse_value (ch CHR ''{'' # ?X) = map_option (apfst (JObj \<circ> object_of)) (parse_members ?X)"
    using hd by (rule pv_object_hd)
  also have "\<dots> = Some (json_of_task t, rest)"
    unfolding parse_task_members
    using object_of_task [of "JStr (task_id t)" "JStr (task_text t)" "JNum (of_int (createdAt t))"
        "JBool (completed t)" "completedAt_json (completedAt t)"]
    by (simp add: json_of_task_def completedAt_json_def)
  finally show ?thesis by (simp only: eq)
qed

lemma parse_elements_one:
  assumes "parse_value (x @ ch CHR '']'' # rest) = Some (v, ch CHR '']'' # rest)"
  shows "parse_elements (x @ ch CHR '']'' # rest) = Some ([v], rest)"
  using assms by (subst parse_elements.simps) (simp add: skip_ws_def is_json_ws_def)

lemma parse_elements_more:
  assumes "parse_value (x @ ch CHR '','' # nxt) = Some (v, ch CHR '','' # nxt)"
  shows "parse_elements (x @ ch CHR '','' # nxt) = map_option (apfst ((#) v)) (parse_elements nxt)"
  using assms by (subst parse_elements.simps) (simp add: skip_ws_def is_json_ws_def)

lemma parse_elements_tasks:
  "parse_elements (join_comma (map stringify_task (t # ts)) @ ch CHR '']'' # rest)
     = Some (map json_of_task (t # ts), rest)"
proof (induction ts arbitrary: t)
  case Nil
  show ?case
    using parse_elements_one [OF parse_value_task, of t rest] by simp
next
  case (Cons u us)
  from parse_elements_more [OF parse_value_task, of t
      "join_comma (map stringify_task (u # us)) @ ch CHR '']'' # rest"] Cons [of u]
  show ?case by simp
qed

lemma join_comma_tasks_hd:
  "join_comma (map stringify_task (t # ts)) \<noteq> []
   \<and> hd (join_comma (map stringify_task (t # ts))) = ch CHR ''{''"
  using stringify_task_Cons [of t] by (cases ts) auto

lemma parse_value_tasks:
  "parse_value (JSON_stringify ts @ rest) = Some (json_of_tasks ts, rest)"
proof (cases ts)
  case Nil
  then show ?thesis
    using pv_array_empty [of rest] by (simp add: JSON_stringify_def json_of_tasks_def)
next
  case (Cons t us)
  let ?X = "join_comma (map stringify_task (t # us)) @ ch CHR '']'' # rest"
  have hd: "?X \<noteq> []" "\<not> is_json_ws (hd ?X)" "hd ?X \<noteq> ch CHR '']''"
    using join_comma_tasks_hd [of t us] by (simp_all add: is_json_ws_def)
  have "parse_value (ch CHR ''['' # ?X) = map_option (apfst JArr) (parse_elements ?X)"
    using hd by (rule pv_array_hd)
  also have "\<dots> = Some (json_of_tasks ts, rest)"
    unfolding parse_elements_tasks by (simp add: Cons json_of_tasks_def)
  finally show ?thesis by (simp add: JSON_stringify_def Cons)
qed

lemma JSON_parse_stringify: "JSON_parse (JSON_stringify ts) = Inr (json_of_tasks ts)"
  using parse_value_tasks [of ts "[]"] by (simp add: JSON_parse_def skip_ws_def)

lemma JSON_stringify_not_Nil: "JSON_stringify ts \<noteq> []"
  by (simp add: JSON_stringify_def)

lemma loadTasks_stored:
  "loadTasks (storage(STORAGE_KEY \<mapsto> JSON_stringify ts)) = json_of_tasks ts"
  by (simp add: loadTasks_def JSON_parse_stringify JSON_stringify_not_Nil)

lemma loadTasks_saveTasks:
  "loadTasks (localStorage (saveTasks s)) = json_of_tasks (tasks s)"
  by (simp add: loadTasks_def JSON_parse_stringify JSON_stringify_not_Nil)

lemma int_of_rat_of_int: "int_of_rat (of_int n) = Some n"
  by (simp add: int_of_rat_def)

lemma get_simps:
  "get_string (Some (JStr x)) = Some x"
  "get_boolean (Some (JBool b)) = Some b"
  "get_number (Some (JNum (of_int n))) = Some n"
  "get_number_or_null (Some JNull) = Some None"
  "get_number_or_null (Some (JNum (of_int n))) = Some (Some n)"
  by (simp_all add: get_string_def get_boolean_def get_number_def get_number_or_null_def
      int_of_rat_of_int)

lemma task_of_json_object:
  "task_of_json (JObj [(js ''id'', JStr i), (js ''text'', JStr x), (js ''createdAt'', JNum (of_int n)),
       (js ''completed'', JBool b),
       (js ''completedAt'', (case a of None \<Rightarrow> JNull | Some k \<Rightarrow> JNum (of_int k)))])
     = Some \<lparr>task_id = i, task_text = x, createdAt = n, completed = b, completedAt = a\<rparr>"
proof -
  let ?m = "[(js ''id'', JStr i), (js ''text'', JStr x), (js ''createdAt'', JNum (of_int n)),
       (js ''completed'', JBool b),
       (js ''completedAt'', (case a of None \<Rightarrow> JNull | Some k \<Rightarrow> JNum (of_int k)))]"
  have m: "map_of ?m (js ''id'') = Some (JStr i)"
    "map_of ?m (js ''text'') = Some (JStr x)"
    "map_of ?m (js ''createdAt'') = Some (JNum (of_int n))"
    "map_of ?m (js ''completed'') = Some (JBool b)"
    "map_of ?m (js ''completedAt'') = Some (case a of None \<Rightarrow> JNull | Some k \<Rightarrow> JNum (of_int k))"
    by simp_all
  have c: "get_number_or_null (Some (case a of None \<Rightarrow> JNull | Some k \<Rightarrow> JNum (of_int k))) = Some a"
    by (cases a) (simp_all only: get_simps option.case)
  show ?thesis
    unfolding task_of_json_def json.case m get_simps c option.case ..
qed

lemma json_of_task_fields:
  "json_of_task \<lparr>task_id = i, task_text = x, createdAt = n, completed = b, completedAt = a\<rparr>
     = JObj [(js ''id'', JStr i), (js ''text'', JStr x), (js ''createdAt'', JNum (of_int n)),
         (js ''completed'', JBool b),
         (js ''completedAt'', (case a of None \<Rightarrow> JNull | Some k \<Rightarrow> JNum (of_int k)))]"
  unfolding json_of_task_def task.simps ..

lemma task_of_json_of_task: "task_of_json (json_of_task t) = Some (t::task)"
proof -
  obtain i x n b a where t: "t = \<lparr>task_id = i, task_text = x, createdAt = n, completed = b, completedAt = a\<rparr>"
    by (cases t)
  show ?thesis
    unfolding t json_of_task_fields task_of_json_object ..
qed

lemma those_tasks_map: "those_tasks (map json_of_task ts) = Some ts"
  by (induction ts) (simp_all add: task_of_json_of_task)

lemma tasks_of_json_of_tasks: "tasks_of_json (json_of_tasks ts) = Some ts"
  by (simp add: tasks_of_json_def json_of_tasks_def those_tasks_map)

lemma json_of_tasks_inject: "json_of_tasks ts = json_of_tasks us \<Longrightarrow> ts = us"
  by (metis tasks_of_json_of_tasks option.inject)

subsection \<open>The parsers consume their input\<close>

text \<open>
  The two length tests in \<open>parse_elements\<close> and \<open>parse_members\<close> are there for the
  termination proof only: they always hold, so the functions satisfy the equations without
  them.
\<close>

lemma parse_frac_length: "parse_frac cs = Some (fs, r) \<Longrightarrow> length r \<le> length cs"
  by (auto simp: parse_frac_def split: list.splits if_splits
      intro: le_trans [OF length_dropWhile_le])

lemma parse_exp_length: "parse_exp cs = Some (e, r) \<Longrightarrow> length r \<le> length cs"
  by (auto simp: parse_exp_def Let_def split: list.splits if_splits
      intro: le_trans [OF length_dropWhile_le])

lemma parse_number_length:
  assumes "parse_number cs = Some (q, r)"
  shows "length r \<le> length cs"
proof -
  define cs1 where "cs1 = snd (case cs of [] \<Rightarrow> (False, cs)
      | c # r \<Rightarrow> if c = ch CHR ''-'' then (True, r) else (False, cs))"
  have 1: "length cs1 \<le> length cs"
    by (auto simp: cs1_def split: list.splits)
  from assms obtain fs cs3 e where
    "parse_frac (dropWhile is_digit cs1) = Some (fs, cs3)" "parse_exp cs3 = Some (e, r)"
    by (auto simp: parse_number_def Let_def cs1_def split: prod.splits if_splits option.splits)
  then have "length cs3 \<le> length (dropWhile is_digit cs1)" "length r \<le> length cs3"
    by (auto dest: parse_frac_length parse_exp_length)
  with 1 length_dropWhile_le [of is_digit cs1] show ?thesis by linarith
qed

lemma parse_literal_length: "parse_literal cs = Some (v, r) \<Longrightarrow> length r \<le> length cs"
  by (auto simp: parse_literal_def split: if_splits)

lemma consumesD:
  "consumes cs \<Longrightarrow> parse_value cs = Some (v, r) \<Longrightarrow> length r \<le> length cs"
  "consumes cs \<Longrightarrow> parse_elements cs = Some (vs, r) \<Longrightarrow> length r \<le> length cs"
  "consumes cs \<Longrightarrow> parse_members cs = Some (ms, r) \<Longrightarrow> length r \<le> length cs"
  by (simp_all add: consumes_def)

lemma parsers_consume: "consumes cs"
proof (induction "length cs" arbitrary: cs rule: less_induct)
  case less
  have V: "length r \<le> length cs" if pv: "parse_value cs = Some (v, r)" for v r
  proof (cases "skip_ws cs")
    case Nil
    with pv show ?thesis by (subst (asm) parse_value.simps) simp
  next
    case (Cons c r0)
    then have r0: "length r0 < length cs" by (rule skip_ws_Cons_length)
    consider (arr) "c = ch CHR ''[''" | (obj) "c \<noteq> ch CHR ''[''" "c = ch CHR ''{''"
      | (str) "c \<noteq> ch CHR ''[''" "c \<noteq> ch CHR ''{''" "c = 0x22"
      | (num) "c \<noteq> ch CHR ''[''" "c \<noteq> ch CHR ''{''" "c \<noteq> 0x22" "c = ch CHR ''-'' \<or> is_digit c"
      | (lit) "c \<noteq> ch CHR ''[''" "c \<noteq> ch CHR ''{''" "c \<noteq> 0x22" "\<not> (c = ch CHR ''-'' \<or> is_digit c)"
      by blast
    then show ?thesis
    proof cases
      case arr
      show ?thesis
      proof (cases "skip_ws r0")
        case Nil
        with pv Cons arr show ?thesis by (subst (asm) parse_value.simps) simp
      next
        case c': (Cons c' r')
        then have r': "length r' < length r0" by (rule skip_ws_Cons_length)
        show ?thesis
        proof (cases "c' = ch CHR '']''")
          case True
          with pv Cons arr c' have "r = r'" by (subst (asm) parse_value.simps) simp
          with r' r0 show ?thesis by simp
        next
          case False
          with pv Cons arr c' obtain vs where "parse_elements (c' # r') = Some (vs, r)"
            by (subst (asm) parse_value.simps) auto
          moreover have "consumes (c' # r')" using less [of "c' # r'"] r' r0 by simp
          ultimately have "length r \<le> length (c' # r')" by (rule consumesD(2) [rotated])
          with r' r0 show ?thesis by simp
        qed
      qed
    next
      case obj
      show ?thesis
      proof (cases "skip_ws r0")
        case Nil
        with pv Cons obj show ?thesis by (subst (asm) parse_value.simps) simp
      next
        case c': (Cons c' r')
        then have r': "length r' < length r0" by (rule skip_ws_Cons_length)
        show ?thesis
        proof (cases "c' = ch CHR ''}''")
          case True
          with pv Cons obj c' have "r = r'" by (subst (asm) parse_value.simps) simp
          with r' r0 show ?thesis by simp
        next
          case False
          with pv Cons obj c' obtain ms where "parse_members (c' # r') = Some (ms, r)"
            by (subst (asm) parse_value.simps) auto
          moreover have "consumes (c' # r')" using less [of "c' # r'"] r' r0 by simp
          ultimately have "length r \<le> length (c' # r')" by (rule consumesD(3) [rotated])
          with r' r0 show ?thesis by simp
        qed
      qed
    next
      case str
      with pv Cons obtain s where "parse_string_chars r0 = Some (s, r)"
        by (subst (asm) parse_value.simps) auto
      then have "length r < length r0" by (rule parse_string_chars_length)
      with r0 show ?thesis by simp
    next
      case num
      with pv Cons obtain q where "parse_number (c # r0) = Some (q, r)"
        by (subst (asm) parse_value.simps) auto
      then have "length r \<le> length (c # r0)" by (rule parse_number_length)
      with r0 show ?thesis by simp
    next
      case lit
      with pv Cons have "parse_literal (c # r0) = Some (v, r)"
        by (subst (asm) parse_value.simps) auto
      then have "length r \<le> length (c # r0)" by (rule parse_literal_length)
      with r0 show ?thesis by simp
    qed
  qed
  have E: "length r \<le> length cs" if pe: "parse_elements cs = Some (vs, r)" for vs r
  proof -
    from pe obtain v r1 where v: "parse_value cs = Some (v, r1)"
      by (subst (asm) parse_elements.simps) (auto split: option.splits)
    then have r1: "length r1 \<le> length cs" by (rule V)
    show ?thesis
    proof (cases "skip_ws r1")
      case Nil
      with pe v r1 show ?thesis by (subst (asm) parse_elements.simps) simp
    next
      case (Cons c r')
      then have r': "length r' < length r1" by (rule skip_ws_Cons_length)
      show ?thesis
      proof (cases "c = ch CHR '',''")
        case True
        with pe v r1 Cons obtain ws where "parse_elements r' = Some (ws, r)"
          by (subst (asm) parse_elements.simps) auto
        moreover have "consumes r'" using less [of r'] r' r1 by simp
        ultimately have "length r \<le> length r'" by (rule consumesD(2) [rotated])
        with r' r1 show ?thesis by simp
      next
        case False
        with pe v r1 Cons have "r = r'"
          by (subst (asm) parse_elements.simps) (simp split: if_splits)
        with r' r1 show ?thesis by simp
      qed
    qed
  qed
  have M: "length r \<le> length cs" if pm: "parse_members cs = Some (ms, r)" for ms r
  proof (cases "skip_ws cs")
    case Nil
    with pm show ?thesis by (subst (asm) parse_members.simps) simp
  next
    case (Cons c r0)
    then have r0: "length r0 < length cs" by (rule skip_ws_Cons_length)
    from pm Cons have c: "c = 0x22"
      by (subst (asm) parse_members.simps) (simp split: if_splits)
    from pm Cons c obtain k r1 where k: "parse_string_chars r0 = Some (k, r1)"
      by (subst (asm) parse_members.simps) (auto split: option.splits)
    then have r1: "length r1 < length r0" by (rule parse_string_chars_length)
    from pm Cons c k obtain c1 r2 where c1: "skip_ws r1 = c1 # r2"
      by (subst (asm) parse_members.simps) (auto split: list.splits)
    then have r2: "length r2 < length r1" by (rule skip_ws_Cons_length)
    from pm Cons c k c1 have colon: "c1 = ch CHR '':''"
      by (subst (asm) parse_members.simps) (simp split: if_splits)
    from pm Cons c k c1 colon obtain v r3 where v: "parse_value r2 = Some (v, r3)"
      by (subst (asm) parse_members.simps) (auto split: option.splits)
    have "consumes r2" using less [of r2] r2 r1 r0 by simp
    then have r3: "length r3 \<le> length r2" using v by (rule consumesD(1))
    from pm Cons c k c1 colon v r3 obtain c3 r4 where c3: "skip_ws r3 = c3 # r4"
      by (subst (asm) parse_members.simps) (auto split: list.splits)
    then have r4: "length r4 < length r3" by (rule skip_ws_Cons_length)
    show ?thesis
    proof (cases "c3 = ch CHR '',''")
      case True
      with pm Cons c k c1 colon v r3 c3 obtain ns where "parse_members r4 = Some (ns, r)"
        by (subst (asm) parse_members.simps) auto
      moreover have "consumes r4" using less [of r4] r4 r3 r2 r1 r0 by simp
      ultimately have "length r \<le> length r4" by (rule consumesD(3) [rotated])
      with r4 r3 r2 r1 r0 show ?thesis by simp
    next
      case False
      with pm Cons c k c1 colon v r3 c3 have "r = r4"
        by (subst (asm) parse_members.simps) (simp split: if_splits)
      with r4 r3 r2 r1 r0 show ?thesis by simp
    qed
  qed
  show ?case
    unfolding consumes_def using V E M by (auto split: option.splits)
qed

lemma parse_elements_unguarded:
  "parse_elements cs =
     (case parse_value cs of
        None \<Rightarrow> None
      | Some (v, r) \<Rightarrow>
          (case skip_ws r of
             [] \<Rightarrow> None
           | c # r' \<Rightarrow>
               if c = ch CHR '','' then map_option (apfst ((#) v)) (parse_elements r')
               else if c = ch CHR '']'' then Some ([v], r')
               else None))"
proof (cases "parse_value cs")
  case None
  then show ?thesis by (subst parse_elements.simps) simp
next
  case (Some a)
  obtain v r where a: "a = (v, r)" by (cases a)
  from Some a have "length r \<le> length cs"
    using consumesD(1) [OF parsers_consume] by simp
  with Some a show ?thesis by (subst parse_elements.simps) simp
qed

lemma parse_members_unguarded:
  "parse_members cs =
     (case skip_ws cs of
        [] \<Rightarrow> None
      | c # r \<Rightarrow>
          if c = 0x22 then
            (case parse_string_chars r of
               None \<Rightarrow> None
             | Some (k, r1) \<Rightarrow>
                 (case skip_ws r1 of
                    [] \<Rightarrow> None
                  | c1 # r2 \<Rightarrow>
                      if c1 = ch CHR '':'' then
                        (case parse_value r2 of
                           None \<Rightarrow> None
                         | Some (v, r3) \<Rightarrow>
                             (case skip_ws r3 of
                                [] \<Rightarrow> None
                              | c3 # r4 \<Rightarrow>
                                  if c3 = ch CHR '','' then
                                    map_option (apfst ((#) (k, v))) (parse_members r4)
                                  else if c3 = ch CHR ''}'' then Some ([(k, v)], r4)
                                  else None))
                      else None))
          else None)"
proof -
  have g: "length r3 \<le> length r2" if "parse_value r2 = Some (v, r3)" for r2 v r3
    using consumesD(1) [OF parsers_consume that] .
  show ?thesis
    by (subst parse_members.simps)
       (simp add: g split: list.split option.split)
qed

lemma loadTasks_fallback:
  "storage STORAGE_KEY = None \<Longrightarrow> loadTasks storage = JArr []"
  "storage STORAGE_KEY = Some [] \<Longrightarrow> loadTasks storage = JArr []"
  "storage STORAGE_KEY = Some raw \<Longrightarrow> JSON_parse raw = Inl e \<Longrightarrow> loadTasks storage = JArr []"
  by (simp_all add: loadTasks_def)

lemma parse_object_text: "parse_value (js ''{}'') = Some (JObj [], [])"
  by (subst parse_value.simps) (simp add: skip_ws_def is_json_ws_def)

lemma parse_42: "parse_value (js ''42'') = Some (JNum 42, [])"
  by (subst parse_value.simps)
     (simp add: skip_ws_def is_json_ws_def is_digit_def parse_number_def Let_def
        parse_frac_def parse_exp_def nat_of_digits_def)

lemma parse_garbage: "parse_value (js ''not json'') = None"
  by (subst parse_value.simps)
     (simp add: skip_ws_def is_json_ws_def is_digit_def parse_literal_def)

subsection \<open>The completion invariant under an update\<close>

lemma invariant_update:
  assumes "completedAt_invariant ts" "(completedAt t \<noteq> None) = completed t"
  shows "completedAt_invariant (ts[k := t])"
  using assms set_update_subset_insert [of ts k t]
  by (auto simp: completedAt_invariant_def list_all_iff)

lemma invariant_nth:
  "completedAt_invariant ts \<Longrightarrow> k < length ts \<Longrightarrow> (completedAt (ts ! k) \<noteq> None) = completed (ts ! k)"
  by (simp add: completedAt_invariant_def list_all_length)

lemma updateTask_cases:
  "updateTask i p s = Inr s
   \<or> (\<exists>k < length (tasks s). updateTask i p s =
         Inr (render (saveTasks (s\<lparr>tasks := (tasks s)[k := spread (tasks s ! k) p]\<rparr>))))"
proof (cases "i \<in> task_id ` set (tasks s)")
  case True
  from updateTask_known [OF True, of p] show ?thesis by blast
next
  case False
  then have "findIndex (\<lambda>t. task_id t = i) (tasks s) = - 1"
    by (auto simp: findIndex_none)
  then show ?thesis by (simp add: updateTask_def)
qed

lemma updateTask_invariant:
  assumes inv: "completedAt_invariant (tasks s)"
    and p: "\<And>t. (completedAt t \<noteq> None) = completed t \<Longrightarrow>
              (completedAt (spread t p) \<noteq> None) = completed (spread t p)"
  shows "\<exists>s'. updateTask i p s = Inr s' \<and> completedAt_invariant (tasks s')"
  using updateTask_cases [of i p s]
proof
  assume "updateTask i p s = Inr s"
  with inv show ?thesis by simp
next
  assume "\<exists>k < length (tasks s). updateTask i p s =
         Inr (render (saveTasks (s\<lparr>tasks := (tasks s)[k := spread (tasks s ! k) p]\<rparr>)))"
  then obtain k where k: "k < length (tasks s)" "updateTask i p s =
         Inr (render (saveTasks (s\<lparr>tasks := (tasks s)[k := spread (tasks s ! k) p]\<rparr>)))"
    by blast
  from invariant_update [OF inv p [OF invariant_nth [OF inv k(1)]], of k] k(2)
  show ?thesis by simp
qed

lemma example_invariant: "completedAt_invariant (tasks example_store)"
  by (simp add: completedAt_invariant_def example_store_def walk_dog_def buy_milk_def)

lemma example_find: "findIndex (\<lambda>t. task_id t = task_id walk_dog) (tasks example_store) = 0"
  by (simp add: example_store_def)

section \<open>The two lists of the page\<close>

text \<open>
  C8. The pending list and the completed list that \<^verbatim>\<open>render\<close> builds partition the task
  sequence: together they hold every task exactly as often as the sequence does, every
  task of the sequence is in exactly one of them, no task is in both, and each list keeps
  the order of the sequence.
\<close>

theorem pending_completed_partition:
  "mset (pendingList (els (render s))) + mset (completedList (els (render s))) = mset (tasks s)
   \<and> set (pendingList (els (render s))) \<union> set (completedList (els (render s))) = set (tasks s)
   \<and> set (pendingList (els (render s))) \<inter> set (completedList (els (render s))) = {}
   \<and> (\<forall>t \<in> set (tasks s).
         (t \<in> set (pendingList (els (render s)))) \<noteq> (t \<in> set (completedList (els (render s)))))
   \<and> subseq (pendingList (els (render s))) (tasks s)
   \<and> subseq (completedList (els (render s))) (tasks s)"
  by (auto simp: add.commute)

theorem pending_completed_partition_witness:
  "walk_dog \<in> set (tasks example_store)
   \<and> walk_dog \<in> set (pendingList (els (render example_store)))
   \<and> walk_dog \<notin> set (completedList (els (render example_store)))
   \<and> buy_milk \<in> set (tasks example_store)
   \<and> buy_milk \<notin> set (pendingList (els (render example_store)))
   \<and> buy_milk \<in> set (completedList (els (render example_store)))"
proof -
  have dog: "walk_dog \<in> set (tasks example_store)"
    and milk: "buy_milk \<in> set (tasks example_store)"
    by (simp_all add: example_store_def)
  have "completed buy_milk" "\<not> completed walk_dog"
    by (simp_all add: buy_milk_def walk_dog_def)
  then have "buy_milk \<in> set (completedList (els (render example_store)))"
    "walk_dog \<in> set (pendingList (els (render example_store)))"
    using dog milk by simp_all
  with dog milk pending_completed_partition [of example_store] show ?thesis
    by blast
qed

section \<open>Adding a task\<close>

text \<open>
  C7. When the text of the input field does not trim to the empty string, the submit
  handler returns; the new sequence is the old one with one task put in front. Its id is
  generated in this call by \<^verbatim>\<open>uid()\<close> from the readings that \<^verbatim>\<open>uid()\<close> itself makes:
  characters 2 to 9 of the random string followed by the last four base-36 digits of
  the clock; an id generated from a random part of the same length is equal to it only
  when both the random part and the four digits agree; for a random string of at least
  ten characters and a clock of at least \<open>36 ^ 3\<close> it has twelve characters. The task is
  not completed and has no completion time, and \<^verbatim>\<open>createdAt\<close> is the handler's own
  reading of the clock. The sequence and the total counter grow by exactly one, the new
  task is first in the sequence and in the pending list, and the sequence is persisted.
\<close>

theorem form_submit_prepends:
  assumes "trim (input_value s) \<noteq> []"
  shows "\<exists>s'. form_submit now rnd uid_now s = Inr s'
           \<and> tasks s' = \<lparr>task_id = uid rnd uid_now, task_text = trim (input_value s),
                          createdAt = now, completed = False, completedAt = None\<rparr> # tasks s
           \<and> task_id (hd (tasks s'))
               = take 8 (drop 2 rnd)
                 @ drop (length (toString36 uid_now) - 4) (toString36 uid_now)
           \<and> (\<forall>rnd' t'. length (take 8 (drop 2 rnd')) = length (take 8 (drop 2 rnd)) \<longrightarrow>
                 (uid rnd' t' = task_id (hd (tasks s'))
                    \<longleftrightarrow> take 8 (drop 2 rnd') = take 8 (drop 2 rnd)
                        \<and> drop (length (toString36 t') - 4) (toString36 t')
                            = drop (length (toString36 uid_now) - 4) (toString36 uid_now)))
           \<and> (10 \<le> length rnd \<and> 36 ^ 3 \<le> uid_now \<longrightarrow> length (task_id (hd (tasks s'))) = 12)
           \<and> \<not> completed (hd (tasks s')) \<and> completedAt (hd (tasks s')) = None
           \<and> length (tasks s') = length (tasks s) + 1
           \<and> countTotal (els s') = length (tasks s) + 1
           \<and> hd (pendingList (els s')) = hd (tasks s')
           \<and> localStorage s' STORAGE_KEY = Some (JSON_stringify (tasks s'))"
proof -
  define t where "t = \<lparr>task_id = uid rnd uid_now, task_text = trim (input_value s),
              createdAt = now, completed = False, completedAt = None\<rparr>"
  define s' where "s' = render (saveTasks (s\<lparr>tasks := t # tasks s, input_value := []\<rparr>))"
  from assms have r: "form_submit now rnd uid_now s = Inr s'"
    by (simp add: form_submit_def Let_def s'_def t_def)
  have ts: "tasks s' = t # tasks s" by (simp add: s'_def)
  have hd: "task_id (hd (tasks s')) = uid rnd uid_now" by (simp add: ts t_def)
  have parts: "task_id (hd (tasks s')) = take 8 (drop 2 rnd)
      @ drop (length (toString36 uid_now) - 4) (toString36 uid_now)"
    unfolding hd by (rule uid_parts)
  have inj: "\<forall>rnd' t'. length (take 8 (drop 2 rnd')) = length (take 8 (drop 2 rnd)) \<longrightarrow>
      (uid rnd' t' = task_id (hd (tasks s'))
         \<longleftrightarrow> take 8 (drop 2 rnd') = take 8 (drop 2 rnd)
             \<and> drop (length (toString36 t') - 4) (toString36 t')
                 = drop (length (toString36 uid_now) - 4) (toString36 uid_now))"
    unfolding hd by (intro allI impI) (rule uid_eq_iff)
  have len: "10 \<le> length rnd \<and> 36 ^ 3 \<le> uid_now \<longrightarrow> length (task_id (hd (tasks s'))) = 12"
    unfolding hd using length_uid [of rnd uid_now] by blast
  have c: "\<not> completed (hd (tasks s'))" "completedAt (hd (tasks s')) = None"
    by (simp_all add: ts t_def)
  have n: "length (tasks s') = length (tasks s) + 1" by (simp add: ts)
  have ct: "countTotal (els s') = length (tasks s) + 1" by (simp add: s'_def)
  have p: "hd (pendingList (els s')) = hd (tasks s')" by (simp add: s'_def t_def)
  have l: "localStorage s' STORAGE_KEY = Some (JSON_stringify (tasks s'))"
    by (simp add: s'_def)
  show ?thesis
    apply (rule exI [of _ s'])
    apply (intro conjI)
              apply (rule r)
             apply (rule ts [unfolded t_def])
            apply (rule parts)
           apply (rule inj)
          apply (rule len)
         apply (rule c(1))
        apply (rule c(2))
       apply (rule n)
      apply (rule ct)
     apply (rule p)
    apply (rule l)
    done
qed

theorem form_submit_prepends_witness:
  "trim (input_value typing_store) \<noteq> []
   \<and> (\<exists>s'. form_submit 1700000000000 (js ''0.4fzyo82mvyr'') 1700000000001 typing_store = Inr s'
          \<and> tasks s' = \<lparr>task_id = js ''4fzyo82m3v29'', task_text = js ''Feed cat'',
                          createdAt = 1700000000000, completed = False, completedAt = None\<rparr>
                        # [walk_dog, buy_milk]
          \<and> uid (js ''0.9k2c7d1xw5q'') 1700000000001 \<noteq> task_id (hd (tasks s'))
          \<and> uid (js ''0.4fzyo82mvyr'') 1700000000002 \<noteq> task_id (hd (tasks s'))
          \<and> length (task_id (hd (tasks s'))) = 12
          \<and> countTotal (els s') = 3)"
proof -
  have t: "trim (input_value typing_store) = js ''Feed cat''"
    using trim_feed_cat by (simp add: typing_store_def)
  then have ne: "trim (input_value typing_store) \<noteq> []" by simp
  have ts: "tasks typing_store = [walk_dog, buy_milk]"
    by (simp add: typing_store_def example_store_def)
  from form_submit_prepends [OF ne, where now = 1700000000000
      and rnd = "js ''0.4fzyo82mvyr''" and uid_now = 1700000000001]
  obtain s' where s': "form_submit 1700000000000 (js ''0.4fzyo82mvyr'') 1700000000001 typing_store
        = Inr s'"
    "tasks s' = \<lparr>task_id = uid (js ''0.4fzyo82mvyr'') 1700000000001,
        task_text = trim (input_value typing_store), createdAt = 1700000000000,
        completed = False, completedAt = None\<rparr> # tasks typing_store"
    "countTotal (els s') = length (tasks typing_store) + 1"
    by (elim exE conjE) (rule that, assumption+)
  have tasks: "tasks s' = \<lparr>task_id = js ''4fzyo82m3v29'', task_text = js ''Feed cat'',
                          createdAt = 1700000000000, completed = False, completedAt = None\<rparr>
                        # [walk_dog, buy_milk]"
    unfolding s'(2) t ts uid_example(1) ..
  have id: "task_id (hd (tasks s')) = js ''4fzyo82m3v29''"
    unfolding tasks by simp
  have cnt: "countTotal (els s') = 3"
    unfolding s'(3) ts by simp
  show ?thesis
    apply (intro conjI exI [of _ s'])
          apply (rule ne)
         apply (rule s'(1))
        apply (rule tasks)
       apply (unfold id)
       apply (rule uid_example(2))
      apply (rule uid_example(3))
     apply (rule uid_example(4))
    apply (rule cnt)
    done
qed

text \<open>
  C10. When the text of the input field does not trim to the empty string, the text of the
  task that the submit handler creates is the trimmed input: the input is that text between
  two runs of white space, and the text neither starts nor ends with white space.
\<close>

theorem form_submit_stores_trimmed:
  assumes "trim (input_value s) \<noteq> []"
  shows "\<exists>s' a b. form_submit now rnd uid_now s = Inr s'
           \<and> task_text (hd (tasks s')) = trim (input_value s)
           \<and> input_value s = a @ task_text (hd (tasks s')) @ b
           \<and> list_all is_white_space a \<and> list_all is_white_space b
           \<and> \<not> is_white_space (hd (task_text (hd (tasks s'))))
           \<and> \<not> is_white_space (last (task_text (hd (tasks s'))))"
proof -
  obtain a b where "input_value s = a @ trim (input_value s) @ b"
    "list_all is_white_space a" "list_all is_white_space b"
    using trim_decompose [of "input_value s"] by blast
  with assms trim_ends [OF assms] show ?thesis
    by (simp add: form_submit_def Let_def) blast
qed

theorem form_submit_stores_trimmed_witness:
  "trim (input_value typing_store) \<noteq> []
   \<and> (\<exists>s'. form_submit 1700000000000 (js ''0.4fzyo82mvyr'') 1700000000001 typing_store = Inr s'
          \<and> task_text (hd (tasks s')) = js ''Feed cat'')"
proof -
  have t: "trim (input_value typing_store) = js ''Feed cat''"
    using trim_feed_cat by (simp add: typing_store_def)
  then have ne: "trim (input_value typing_store) \<noteq> []" by simp
  from form_submit_stores_trimmed [OF ne, where now = 1700000000000
      and rnd = "js ''0.4fzyo82mvyr''" and uid_now = 1700000000001] ne
  show ?thesis unfolding t by auto
qed

text \<open>
  C2. When the text of the input field trims to the empty string, the submit handler
  returns without throwing and leaves the whole state, the task sequence included, as it
  was.
\<close>

theorem form_submit_blank:
  assumes "trim (input_value s) = []"
  shows "form_submit now rnd uid_now s = Inr s"
  using assms by (simp add: form_submit_def)

theorem form_submit_blank_witness:
  "trim (input_value blank_input_store) = []
   \<and> form_submit 1700000000000 (js ''0.4fzyo82mvyr'') 1700000000001 blank_input_store
       = Inr blank_input_store"
proof -
  have b: "trim (input_value blank_input_store) = []"
    using trim_blank by (simp add: blank_input_store_def)
  with form_submit_blank [OF b] show ?thesis by simp
qed

text \<open>The handler does not throw \<^verbatim>\<open>ValidationError\<close> on a blank input.\<close>

theorem form_submit_blank_counterexample:
  "trim (input_value blank_input_store) = []
   \<and> form_submit 1700000000000 (js ''0.4fzyo82mvyr'') 1700000000001 blank_input_store
       \<noteq> Inl ValidationError"
  using trim_blank by (simp add: form_submit_def blank_input_store_def)

section \<open>Updating a task\<close>

text \<open>
  C9. When some task has the id, \<^verbatim>\<open>updateTask\<close> returns and replaces one task, at a
  position \<open>k\<close> that holds this id, by the spread of the task and the patch: the length of
  the sequence and the order of the ids are unchanged, and every task with another id is
  unchanged.
\<close>

theorem updateTask_frame:
  assumes "i \<in> task_id ` set (tasks s)"
  shows "\<exists>s' k. updateTask i p s = Inr s'
           \<and> k < length (tasks s) \<and> task_id (tasks s ! k) = i
           \<and> tasks s' = (tasks s)[k := spread (tasks s ! k) p]
           \<and> length (tasks s') = length (tasks s)
           \<and> map task_id (tasks s') = map task_id (tasks s)
           \<and> (\<forall>j < length (tasks s). task_id (tasks s ! j) \<noteq> i \<longrightarrow> tasks s' ! j = tasks s ! j)"
proof -
  from updateTask_known [OF assms, of p] obtain k where k: "k < length (tasks s)"
    "task_id (tasks s ! k) = i"
    "updateTask i p s =
       Inr (render (saveTasks (s\<lparr>tasks := (tasks s)[k := spread (tasks s ! k) p]\<rparr>)))"
    by blast
  have "map task_id ((tasks s)[k := spread (tasks s ! k) p]) = map task_id (tasks s)"
    using k(1) by (simp add: map_update list_update_same_conv)
  moreover have "\<forall>j < length (tasks s). task_id (tasks s ! j) \<noteq> i \<longrightarrow>
      (tasks s)[k := spread (tasks s ! k) p] ! j = tasks s ! j"
    using k(1,2) by (auto simp: nth_list_update)
  ultimately show ?thesis using k by auto
qed

theorem updateTask_frame_witness:
  "task_id buy_milk \<in> task_id ` set (tasks example_store)
   \<and> (\<exists>s'. updateTask (task_id buy_milk) (no_patch\<lparr>patch_text := Some (js ''Buy oat milk'')\<rparr>)
               example_store = Inr s'
          \<and> map task_id (tasks s') = [task_id walk_dog, task_id buy_milk]
          \<and> tasks s' ! 0 = walk_dog)"
proof -
  have m: "task_id buy_milk \<in> task_id ` set (tasks example_store)"
    by (simp add: example_store_def)
  have ts: "tasks example_store = [walk_dog, buy_milk]"
    by (simp add: example_store_def)
  have ne: "task_id walk_dog \<noteq> task_id buy_milk"
    by (simp add: walk_dog_def buy_milk_def)
  from updateTask_frame [OF m, of "no_patch\<lparr>patch_text := Some (js ''Buy oat milk'')\<rparr>"]
  obtain s' where s': "updateTask (task_id buy_milk) (no_patch\<lparr>patch_text := Some (js ''Buy oat milk'')\<rparr>)
               example_store = Inr s'"
    "map task_id (tasks s') = map task_id (tasks example_store)"
    "\<forall>j < length (tasks example_store). task_id (tasks example_store ! j) \<noteq> task_id buy_milk
        \<longrightarrow> tasks s' ! j = tasks example_store ! j"
    by blast
  from s'(3) ne have "tasks s' ! 0 = walk_dog" by (simp add: ts)
  with s'(1,2) m show ?thesis by (simp add: ts)
qed

text \<open>
  C1. When no task has the id, \<^verbatim>\<open>updateTask\<close> returns without throwing and leaves the
  whole state, the task sequence included, as it was.
\<close>

theorem updateTask_unknown_id:
  assumes "i \<notin> task_id ` set (tasks s)"
  shows "updateTask i p s = Inr s"
proof -
  from assms have "findIndex (\<lambda>t. task_id t = i) (tasks s) = - 1"
    by (auto simp: findIndex_none)
  then show ?thesis by (simp add: updateTask_def)
qed

theorem updateTask_unknown_id_witness:
  "js ''nosuchid'' \<notin> task_id ` set (tasks example_store)
   \<and> updateTask (js ''nosuchid'') (no_patch\<lparr>patch_completed := Some True\<rparr>) example_store
       = Inr example_store"
proof -
  have n: "js ''nosuchid'' \<notin> task_id ` set (tasks example_store)"
    by (simp add: example_store_def walk_dog_def buy_milk_def)
  with updateTask_unknown_id [OF n] show ?thesis by simp
qed

text \<open>It does not throw \<^verbatim>\<open>NotFoundError\<close> on an unknown id.\<close>

theorem updateTask_unknown_id_counterexample:
  "js ''nosuchid'' \<notin> task_id ` set (tasks example_store)
   \<and> updateTask (js ''nosuchid'') no_patch example_store \<noteq> Inl NotFoundError"
  by (simp add: updateTask_def findIndex_none example_store_def walk_dog_def buy_milk_def)

text \<open>
  C4. An edit of a task that exists, committed with \<^verbatim>\<open>commitEdit\<close>: when the new text
  trims to the empty string the function shows the alert and returns, changing nothing
  else; otherwise it returns and the first task with this id has the trimmed text, all
  other fields and tasks being as before.
\<close>

theorem commitEdit_text:
  assumes "i \<in> task_id ` set (tasks s)"
  shows "(trim v = [] \<longrightarrow>
            commitEdit v i s = Inr (s\<lparr>alerts := js ''Task cannot be empty.'' # alerts s\<rparr>))
       \<and> (trim v \<noteq> [] \<longrightarrow>
            (\<exists>s' k. commitEdit v i s = Inr s'
               \<and> k < length (tasks s) \<and> task_id (tasks s ! k) = i
               \<and> (\<forall>j < k. task_id (tasks s ! j) \<noteq> i)
               \<and> tasks s' = (tasks s)[k := (tasks s ! k)\<lparr>task_text := trim v\<rparr>]
               \<and> task_text (tasks s' ! k) = trim v))"
proof (cases "trim v = []")
  case True
  then show ?thesis by (simp add: commitEdit_def)
next
  case False
  from updateTask_known [OF assms, of "no_patch\<lparr>patch_text := Some (trim v)\<rparr>"]
  obtain k where k: "k < length (tasks s)" "task_id (tasks s ! k) = i"
    "\<forall>j < k. task_id (tasks s ! j) \<noteq> i"
    "updateTask i (no_patch\<lparr>patch_text := Some (trim v)\<rparr>) s =
       Inr (render (saveTasks
         (s\<lparr>tasks := (tasks s)[k := spread (tasks s ! k) (no_patch\<lparr>patch_text := Some (trim v)\<rparr>)]\<rparr>)))"
    by blast
  have sp: "spread (tasks s ! k) (no_patch\<lparr>patch_text := Some (trim v)\<rparr>)
              = (tasks s ! k)\<lparr>task_text := trim v\<rparr>"
    by (simp add: spread_def no_patch_def)
  from False k show ?thesis
    unfolding sp by (auto simp: commitEdit_def Let_def)
qed

theorem commitEdit_text_witness:
  "task_id walk_dog \<in> task_id ` set (tasks example_store)
   \<and> trim (js ''   '') = []
   \<and> commitEdit (js ''   '') (task_id walk_dog) example_store
       = Inr (example_store\<lparr>alerts := [js ''Task cannot be empty.'']\<rparr>)
   \<and> trim (js ''  Feed cat '') \<noteq> []
   \<and> (\<exists>s'. commitEdit (js ''  Feed cat '') (task_id walk_dog) example_store = Inr s'
          \<and> tasks s' = [walk_dog\<lparr>task_text := js ''Feed cat''\<rparr>, buy_milk])"
proof -
  have m: "task_id walk_dog \<in> task_id ` set (tasks example_store)"
    by (simp add: example_store_def)
  have ts: "tasks example_store = [walk_dog, buy_milk]"
    by (simp add: example_store_def)
  have al: "alerts example_store = []"
    by (simp add: example_store_def empty_store_def)
  have ne: "task_id buy_milk \<noteq> task_id walk_dog"
    by (simp add: walk_dog_def buy_milk_def)
  have f: "trim (js ''  Feed cat '') \<noteq> []"
    using trim_feed_cat by simp
  from commitEdit_text [OF m, of "js ''   ''"] trim_blank
  have 1: "commitEdit (js ''   '') (task_id walk_dog) example_store
       = Inr (example_store\<lparr>alerts := [js ''Task cannot be empty.'']\<rparr>)"
    by (simp add: al)
  from commitEdit_text [OF m, of "js ''  Feed cat ''"] f
  obtain s' k where k: "commitEdit (js ''  Feed cat '') (task_id walk_dog) example_store = Inr s'"
     "k < length (tasks example_store)" "task_id (tasks example_store ! k) = task_id walk_dog"
     "tasks s' = (tasks example_store)[k := (tasks example_store ! k)\<lparr>task_text := trim (js ''  Feed cat '')\<rparr>]"
    by blast
  from k(2,3) ne have "k = 0" by (cases k) (auto simp: ts)
  with k(4) have "tasks s' = [walk_dog\<lparr>task_text := js ''Feed cat''\<rparr>, buy_milk]"
    using trim_feed_cat by (simp add: ts)
  with k(1) 1 m f trim_blank show ?thesis by blast
qed

text \<open>It does not throw \<^verbatim>\<open>ValidationError\<close> on a blank text.\<close>

theorem commitEdit_blank_counterexample:
  "task_id walk_dog \<in> task_id ` set (tasks example_store)
   \<and> trim (js ''   '') = []
   \<and> commitEdit (js ''   '') (task_id walk_dog) example_store \<noteq> Inl ValidationError"
  using trim_blank by (simp add: commitEdit_def example_store_def)

section \<open>The completion invariant\<close>

text \<open>
  C5. When every task of the sequence has a completion time exactly when it is completed,
  this still holds after each handler: submit, the checkbox (which sets \<^verbatim>\<open>completed\<close>
  and \<^verbatim>\<open>completedAt\<close> together), \<^verbatim>\<open>commitEdit\<close>, delete and clear all; each of them
  returns. It also holds for what \<^verbatim>\<open>loadTasks\<close> reads back from what \<^verbatim>\<open>saveTasks\<close>
  stored.
\<close>

theorem handlers_keep_completedAt:
  assumes "completedAt_invariant (tasks s)"
  shows "(\<exists>s'. form_submit now rnd uid_now s = Inr s' \<and> completedAt_invariant (tasks s'))
       \<and> (\<exists>s'. checkbox_change i checked now s = Inr s' \<and> completedAt_invariant (tasks s'))
       \<and> (\<exists>s'. commitEdit v i s = Inr s' \<and> completedAt_invariant (tasks s'))
       \<and> (\<exists>s'. delete_click i confirmed s = Inr s' \<and> completedAt_invariant (tasks s'))
       \<and> (\<exists>s'. clearAll_click confirmed s = Inr s' \<and> completedAt_invariant (tasks s'))
       \<and> (\<exists>ts. tasks_of_json (loadTasks (localStorage (saveTasks s))) = Some ts
              \<and> completedAt_invariant ts)"
proof (intro conjI)
  show "\<exists>s'. form_submit now rnd uid_now s = Inr s' \<and> completedAt_invariant (tasks s')"
    using assms by (simp add: form_submit_def Let_def completedAt_invariant_def)
  show "\<exists>s'. checkbox_change i checked now s = Inr s' \<and> completedAt_invariant (tasks s')"
    unfolding checkbox_change_def
    by (rule updateTask_invariant [OF assms]) (simp add: spread_def no_patch_def)
  show "\<exists>s'. commitEdit v i s = Inr s' \<and> completedAt_invariant (tasks s')"
  proof (cases "trim v = []")
    case True
    with assms show ?thesis by (simp add: commitEdit_def)
  next
    case False
    have "\<exists>s'. updateTask i (no_patch\<lparr>patch_text := Some (trim v)\<rparr>) s = Inr s'
            \<and> completedAt_invariant (tasks s')"
      by (rule updateTask_invariant [OF assms]) (simp add: spread_def no_patch_def)
    with False show ?thesis by (simp add: commitEdit_def Let_def)
  qed
  show "\<exists>s'. delete_click i confirmed s = Inr s' \<and> completedAt_invariant (tasks s')"
    using assms by (auto simp: delete_click_def completedAt_invariant_def list_all_iff)
  show "\<exists>s'. clearAll_click confirmed s = Inr s' \<and> completedAt_invariant (tasks s')"
    using assms by (auto simp: clearAll_click_def completedAt_invariant_def)
  show "\<exists>ts. tasks_of_json (loadTasks (localStorage (saveTasks s))) = Some ts
              \<and> completedAt_invariant ts"
    using assms by (simp add: loadTasks_stored tasks_of_json_of_tasks)
qed

theorem handlers_keep_completedAt_witness:
  "completedAt_invariant (tasks example_store)
   \<and> (\<exists>s'. checkbox_change (task_id walk_dog) True 4000 example_store = Inr s'
          \<and> completedAt_invariant (tasks s'))
   \<and> (\<exists>s'. delete_click (task_id buy_milk) True example_store = Inr s'
          \<and> completedAt_invariant (tasks s'))"
  using handlers_keep_completedAt [OF example_invariant,
      where i = "task_id walk_dog" and checked = True and now = 4000]
    handlers_keep_completedAt [OF example_invariant,
      where i = "task_id buy_milk" and confirmed = True]
    example_invariant
  by blast

text \<open>
  \<^verbatim>\<open>updateTask\<close> itself applies the patch as it is given: with the patch
  \<^verbatim>\<open>{ completed: true }\<close> a pending task becomes completed with no completion time.
\<close>

theorem updateTask_completed_only_counterexample:
  "completedAt_invariant (tasks example_store)
   \<and> \<not> isl (updateTask (task_id walk_dog) (no_patch\<lparr>patch_completed := Some True\<rparr>) example_store)
   \<and> tasks (projr (updateTask (task_id walk_dog) (no_patch\<lparr>patch_completed := Some True\<rparr>)
                example_store))
       = [walk_dog\<lparr>completed := True\<rparr>, buy_milk]
   \<and> \<not> completedAt_invariant
         (tasks (projr (updateTask (task_id walk_dog) (no_patch\<lparr>patch_completed := Some True\<rparr>)
                  example_store)))"
proof -
  have u: "updateTask (task_id walk_dog) (no_patch\<lparr>patch_completed := Some True\<rparr>) example_store
      = Inr (render (saveTasks (example_store\<lparr>tasks := [walk_dog\<lparr>completed := True\<rparr>, buy_milk]\<rparr>)))"
    using example_find
    by (simp add: updateTask_def Let_def spread_def no_patch_def)
       (simp add: example_store_def)
  have n: "\<not> completedAt_invariant [walk_dog\<lparr>completed := True\<rparr>, buy_milk]"
    by (simp add: completedAt_invariant_def walk_dog_def)
  from u n example_invariant show ?thesis by simp
qed

section \<open>Persistence\<close>

text \<open>
  C6. For every task sequence, what \<^verbatim>\<open>loadTasks\<close> reads from the storage that
  \<^verbatim>\<open>saveTasks\<close> wrote is the array of the same tasks in the same order: read at the
  declared type it is the sequence itself, with the same id, text, createdAt, completed
  and completedAt in every task.
\<close>

theorem save_load_roundtrip:
  "loadTasks (localStorage (saveTasks s)) = json_of_tasks (tasks s)
   \<and> tasks_of_json (loadTasks (localStorage (saveTasks s))) = Some (tasks s)
   \<and> localStorage (saveTasks s) STORAGE_KEY = Some (JSON_stringify (tasks s))
   \<and> JSON_parse (JSON_stringify (tasks s)) = Inr (json_of_tasks (tasks s))"
  by (simp add: loadTasks_stored tasks_of_json_of_tasks JSON_parse_stringify)

theorem save_load_roundtrip_witness:
  "tasks_of_json (loadTasks (localStorage (saveTasks example_store))) = Some [walk_dog, buy_milk]"
proof -
  have ts: "tasks example_store = [walk_dog, buy_milk]"
    by (simp add: example_store_def)
  from save_load_roundtrip [of example_store]
  have "tasks_of_json (loadTasks (localStorage (saveTasks example_store)))
          = Some (tasks example_store)"
    by blast
  then show ?thesis unfolding ts .
qed

text \<open>
  C3. \<^verbatim>\<open>loadTasks\<close> on a stored text that is JSON but not an array of tasks: the text
  \<^verbatim>\<open>{}\<close> gives the empty object and \<^verbatim>\<open>42\<close> the number, not the empty array; a text
  that is not JSON and an absent value give the empty array.
\<close>

theorem loadTasks_wrong_shape:
  "loadTasks (Map.empty(STORAGE_KEY \<mapsto> js ''{}'')) = JObj []
   \<and> tasks_of_json (loadTasks (Map.empty(STORAGE_KEY \<mapsto> js ''{}''))) = None
   \<and> loadTasks (Map.empty(STORAGE_KEY \<mapsto> js ''42'')) = JNum 42
   \<and> loadTasks (Map.empty(STORAGE_KEY \<mapsto> js ''not json'')) = JArr []
   \<and> loadTasks Map.empty = JArr []"
  using parse_object_text parse_42 parse_garbage
  by (simp add: loadTasks_def JSON_parse_def skip_ws_def tasks_of_json_def STORAGE_KEY_def)

end
